theory Spec2Isabelle
  imports
    Main
    "HOL-Library.Word"
    "HOL-Library.Multiset"
    "HOL-Library.Char_ord"
    "HOL-Library.List_Lexorder"
begin

section \<open>Result reconciliation: \<open>cmd/internal/reader/compare.go\<close>\<close>

subsection \<open>Data\<close>

text \<open>
  Go \<open>error\<close> values. \<open>nil\<close> is \<open>None\<close> of \<open>error option\<close>. \<open>TooFew n\<close> is the value
  of \<open>fmt.Errorf("at least two results files must be provided for comparison; got %d", n)\<close>;
  \<open>Failure msg\<close> is any other error with its message (\<open>errors.New(msg)\<close>), \<open>EOF\<close> is
  \<open>io.EOF\<close>.
\<close>

datatype error = EOF | Failure string | TooFew nat

text \<open>
  An \<open>Identification\<close> is an interface value; the only method the reconciliation calls
  is \<open>String()\<close>, so the value is modelled by what that method returns.
\<close>

datatype Identification = Identification (String: string)

text \<open>
  \<open>File {Path, Size, Mod, Hash, IDs}\<close>: \<open>Size\<close> is an \<open>int64\<close>, \<open>Hash\<close> a byte slice.
\<close>

record File =
  Path :: string
  Size :: "64 word"
  Mod :: string
  Hash :: string
  IDs :: "Identification list"

text \<open>
  The \<open>Reader\<close> interface is outside the sources. A reader is given by the results its
  successive \<open>Next()\<close> calls return: \<open>Inr f\<close> is \<open>(f, nil)\<close>, \<open>Inl e\<close> is a call that returns
  the non-nil error \<open>e\<close>. The sequence is finite (the spec: "forward-only, finite sequence
  per opened result-set path"); a reader that has run out of results returns \<open>io.EOF\<close>.
\<close>

type_synonym Reader = "(error + File) list"

definition Next :: "Reader \<Rightarrow> (error + File) \<times> Reader" where
  "Next rdr = (case rdr of [] \<Rightarrow> (Inl EOF, []) | x # rest \<Rightarrow> (x, rest))"

text \<open>
  What the code calls and does not define: \<open>filepath.Base\<close>, \<open>strconv.FormatInt(_, 10)\<close>
  (on the value of the \<open>int64\<close>), \<open>Open\<close> of the reader package (the file system: which
  paths open, and what the reader then returns), and \<open>csv.Writer.Write\<close> on the output
  (given the records already written, whether writing one more fails).
\<close>

record env =
  Base :: "string \<Rightarrow> string"
  FormatInt :: "int \<Rightarrow> string"
  Open :: "string \<Rightarrow> error + Reader"
  Write :: "string list list \<Rightarrow> string list \<Rightarrow> error option"

text \<open>
  The effects of a run, in the order they happen: a call of \<open>Open\<close> on a path; a call of
  \<open>Next\<close> on the reader with the given index; a call \<open>wrt.Write(row)\<close> that returned nil (the
  record is with the csv writer); \<open>wrt.Flush()\<close>; \<open>fmt.Fprint(w, s)\<close>. The code does not test
  the outcome of the last two, so they have none here.
\<close>

datatype event =
    OpenFile string
  | NextEntry nat
  | WriteRecord "string list"
  | Flush
  | Print string

definition records :: "event list \<Rightarrow> string list list" where
  "records tr = concat (map (\<lambda>ev. case ev of WriteRecord r \<Rightarrow> [r] | _ \<Rightarrow> []) tr)"

subsection \<open>Join keys\<close>

text \<open>
  The constants \<open>Path\<close>, \<open>Filename\<close>, ..., \<open>Hash\<close> (\<open>iota\<close> from 0); \<open>Path\<close> and \<open>Hash\<close> are
  also fields of \<open>File\<close>, so the constants are \<open>Path_join\<close> and \<open>Hash_join\<close> here. The
  \<open>switch\<close> of \<open>keygen\<close> has \<open>Path\<close> as its default: every \<open>join\<close> that is not one of the
  other five constants gives the path.
\<close>

definition Path_join :: int where "Path_join = 0"
definition Filename :: int where "Filename = 1"
definition FilenameSize :: int where "FilenameSize = 2"
definition FilenameMod :: int where "FilenameMod = 3"
definition FilenameHash :: int where "FilenameHash = 4"
definition Hash_join :: int where "Hash_join = 5"

definition keygen :: "env \<Rightarrow> int \<Rightarrow> File \<Rightarrow> string" where
  "keygen E join fi =
     (if join = Filename then Base E (Path fi)
      else if join = FilenameSize then Base E (Path fi) @ FormatInt E (sint (Size fi))
      else if join = FilenameMod then Base E (Path fi) @ Mod fi
      else if join = FilenameHash then Base E (Path fi) @ Hash fi
      else if join = Hash_join then Hash fi
      else Path fi)"

subsection \<open>Identification strings\<close>

text \<open>\<open>strings.Join\<close>.\<close>

fun Join :: "string list \<Rightarrow> string \<Rightarrow> string" where
  "Join [] sep = []"
| "Join [s] sep = s"
| "Join (s # t # ss) sep = s @ sep @ Join (t # ss) sep"

text \<open>
  \<open>sort.Strings\<close> orders byte strings lexicographically; \<open>sort\<close> on \<open>string list\<close> is
  that order (a proper prefix comes first, bytes compare by value).
\<close>

definition idStr :: "File \<Rightarrow> string" where
  "idStr fi = Join (sort (map String (IDs fi))) '';''"

text \<open>
  The column text in the spec's words, "semicolon-joined, lexicographically-sorted,
  deduplicated", as a function of its own.
\<close>

definition idStr_spec :: "File \<Rightarrow> string" where
  "idStr_spec fi = Join (remdups (sort (map String (IDs fi)))) '';''"

text \<open>
  \<open>matches\<close>: fewer than 3 columns never match; otherwise the loop over \<open>res[2:]\<close> (here
  \<open>all_eq\<close>) returns false at the first column that differs from \<open>res[1]\<close>.
\<close>

fun all_eq :: "string \<Rightarrow> string list \<Rightarrow> bool" where
  "all_eq m [] = True"
| "all_eq m (r # rs) = (if r \<noteq> m then False else all_eq m rs)"

definition matches :: "string list \<Rightarrow> bool" where
  "matches res = (if length res < 3 then False else all_eq (res ! 1) (drop 2 res))"

subsection \<open>Compare\<close>

record cstate =
  files :: "string list"
  results :: "string \<rightharpoonup> string list"
  trace :: "event list"

text \<open>\<open>results[f]\<close>: a key that is not in a Go map reads as the nil slice.\<close>

definition lookup :: "(string \<rightharpoonup> string list) \<Rightarrow> string \<Rightarrow> string list" where
  "lookup m k = (case m k of None \<Rightarrow> [] | Some row \<Rightarrow> row)"

text \<open>
  The row allocated on first sight of a key: \<open>n + 1\<close> columns for \<open>n\<close> readers, the path
  and then \<open>"MISSING"\<close> everywhere.
\<close>

definition newRow :: "nat \<Rightarrow> string \<Rightarrow> string list" where
  "newRow n p = p # replicate n ''MISSING''"

text \<open>
  The body of the inner loop for entry \<open>f\<close> of reader \<open>i\<close>, among \<open>n\<close> readers. The
  assignment \<open>results[key][i+1] = idStr(f)\<close> is a list update; that its index is inside
  the row is lemma \<open>addEntry_in_range\<close> below.
\<close>

definition addEntry :: "env \<Rightarrow> int \<Rightarrow> nat \<Rightarrow> nat \<Rightarrow> File \<Rightarrow> cstate \<Rightarrow> cstate" where
  "addEntry E join n i f st =
     (let key = keygen E join f;
          st1 = (case results st key of
                   None \<Rightarrow> st\<lparr>files := files st @ [key],
                              results := (results st)(key \<mapsto> newRow n (Path f))\<rparr>
                 | Some _ \<Rightarrow> st)
      in st1\<lparr>results := (results st1)(key \<mapsto> (lookup (results st1) key)[i + 1 := idStr f])\<rparr>)"

text \<open>
  The inner loop \<open>for f, e := rdr.Next(); e == nil; f, e = rdr.Next()\<close>: it ends at the
  first call of \<open>Next\<close> that returns an error, whatever the error, and drops that error.
\<close>

function consume :: "env \<Rightarrow> int \<Rightarrow> nat \<Rightarrow> nat \<Rightarrow> Reader \<Rightarrow> cstate \<Rightarrow> cstate" where
  "consume E join n i rdr st =
     (case Next rdr of
        (Inl e, rdr') \<Rightarrow> st\<lparr>trace := trace st @ [NextEntry i]\<rparr>
      | (Inr f, rdr') \<Rightarrow>
          consume E join n i rdr' (addEntry E join n i f (st\<lparr>trace := trace st @ [NextEntry i]\<rparr>)))"
  by pat_completeness auto
termination
  by (relation "measure (\<lambda>(E, join, n, i, rdr, st). length rdr)")
    (auto simp: Next_def split: list.splits)

declare consume.simps [simp del]

text \<open>The outer loop \<open>for i, rdr := range readers\<close>.\<close>

fun readAll :: "env \<Rightarrow> int \<Rightarrow> nat \<Rightarrow> nat \<Rightarrow> Reader list \<Rightarrow> cstate \<Rightarrow> cstate" where
  "readAll E join n i [] st = st"
| "readAll E join n i (rdr # rdrs) st = readAll E join n (Suc i) rdrs (consume E join n i rdr st)"

text \<open>The loop that opens the readers; it returns at the first path that fails to open.\<close>

fun openAll :: "env \<Rightarrow> string list \<Rightarrow> Reader list \<Rightarrow> event list
    \<Rightarrow> (error + Reader list) \<times> event list" where
  "openAll E [] readers tr = (Inr readers, tr)"
| "openAll E (v # vs) readers tr =
     (case Open E v of
        Inl err \<Rightarrow> (Inl err, tr @ [OpenFile v])
      | Inr rdr \<Rightarrow> openAll E vs (readers @ [rdr]) (tr @ [OpenFile v]))"

text \<open>
  The loop over \<open>files\<close> that writes the rows which do not match; it carries the flag
  \<open>complete\<close> and returns at the first write that fails.
\<close>

fun writeAll :: "env \<Rightarrow> (string \<rightharpoonup> string list) \<Rightarrow> string list \<Rightarrow> bool \<Rightarrow> event list
    \<Rightarrow> error option \<times> bool \<times> event list" where
  "writeAll E res [] complete tr = (None, complete, tr)"
| "writeAll E res (f # fs) complete tr =
     (if \<not> matches (lookup res f) then
        (case Write E (records tr) (lookup res f) of
           Some err \<Rightarrow> (Some err, False, tr)
         | None \<Rightarrow> writeAll E res fs False (tr @ [WriteRecord (lookup res f)]))
      else writeAll E res fs complete tr)"

text \<open>
  The two reading loops of \<open>Compare\<close>, started on the empty \<open>files\<close> and \<open>results\<close>
  (\<open>start\<close>); \<open>tr\<close> is what has happened before (the readers were opened).
\<close>

definition start :: "event list \<Rightarrow> cstate" where
  "start tr = \<lparr>files = [], results = Map.empty, trace = tr\<rparr>"

definition reconcile :: "env \<Rightarrow> int \<Rightarrow> Reader list \<Rightarrow> event list \<Rightarrow> cstate" where
  "reconcile E join readers tr = readAll E join (length readers) 0 readers (start tr)"

definition Compare :: "env \<Rightarrow> int \<Rightarrow> string list \<Rightarrow> error option \<times> event list" where
  "Compare E join paths =
     (if length paths < 2 then (Some (TooFew (length paths)), [])
      else
        (case openAll E paths [] [] of
           (Inl err, tr) \<Rightarrow> (Some err, tr)
         | (Inr readers, tr) \<Rightarrow>
             (let st = reconcile E join readers tr
              in case writeAll E (results st) (files st) True (trace st) of
                   (Some err, complete, tr') \<Rightarrow> (Some err, tr')
                 | (None, complete, tr') \<Rightarrow>
                     (None, tr' @ [Flush] @ (if complete then [Print ''COMPLETE MATCH''] else [])))))"

subsection \<open>What a run has read\<close>

text \<open>The entries a reader yields before its first error, in order.\<close>

fun entries :: "Reader \<Rightarrow> File list" where
  "entries [] = []"
| "entries (Inl e # rdr) = []"
| "entries (Inr f # rdr) = f # entries rdr"

text \<open>
  All entries of the readers in the order the loops read them, each with the index of its
  reader (its result set); \<open>i\<close> is the index of the first reader of the list.
\<close>

fun tagged :: "nat \<Rightarrow> Reader list \<Rightarrow> (nat \<times> File) list" where
  "tagged i [] = []"
| "tagged i (rdr # rdrs) = map (Pair i) (entries rdr) @ tagged (Suc i) rdrs"

text \<open>The calls of \<open>Next\<close> the loops make: one per entry and one more that ends the reader.\<close>

fun nexts :: "nat \<Rightarrow> Reader list \<Rightarrow> event list" where
  "nexts i [] = []"
| "nexts i (rdr # rdrs) = replicate (Suc (length (entries rdr))) (NextEntry i) @ nexts (Suc i) rdrs"

text \<open>The state after the loop body has run on the entries \<open>xs\<close>, one after the other.\<close>

definition feed :: "env \<Rightarrow> int \<Rightarrow> nat \<Rightarrow> cstate \<Rightarrow> (nat \<times> File) list \<Rightarrow> cstate" where
  "feed E join n st xs = foldl (\<lambda>s p. addEntry E join n (fst p) (snd p) s) st xs"

text \<open>The keys of a list in the order of their first occurrence.\<close>

definition firstSeen :: "'a list \<Rightarrow> 'a list" where
  "firstSeen ks = rev (remdups (rev ks))"

definition keysOf :: "env \<Rightarrow> int \<Rightarrow> (nat \<times> File) list \<Rightarrow> string list" where
  "keysOf E join xs = map (\<lambda>p. keygen E join (snd p)) xs"

text \<open>The entries with join key \<open>key\<close>, and those of them that come from result set \<open>j\<close>.\<close>

definition withKey :: "env \<Rightarrow> int \<Rightarrow> string \<Rightarrow> (nat \<times> File) list \<Rightarrow> (nat \<times> File) list" where
  "withKey E join key xs = filter (\<lambda>p. keygen E join (snd p) = key) xs"

definition fromSet :: "nat \<Rightarrow> (nat \<times> File) list \<Rightarrow> File list" where
  "fromSet j xs = map snd (filter (\<lambda>p. fst p = j) xs)"

text \<open>
  The row a key should have once the entries \<open>xs\<close> are read: the path of the first entry
  with the key, then for each result set the identification string of its last entry with
  the key, or \<open>"MISSING"\<close>.
\<close>

definition column :: "env \<Rightarrow> int \<Rightarrow> string \<Rightarrow> (nat \<times> File) list \<Rightarrow> nat \<Rightarrow> string" where
  "column E join key xs j =
     (let fs = fromSet j (withKey E join key xs)
      in if fs = [] then ''MISSING'' else idStr (last fs))"

definition rowOf :: "env \<Rightarrow> int \<Rightarrow> nat \<Rightarrow> string \<Rightarrow> (nat \<times> File) list \<Rightarrow> string list" where
  "rowOf E join n key xs =
     (case withKey E join key xs of
        [] \<Rightarrow> []
      | p # ps \<Rightarrow> Path (snd p) # map (column E join key xs) [0..<n])"

text \<open>The rows of a table in the order of \<open>files\<close>, and those the last loop writes.\<close>

definition rowsOf :: "cstate \<Rightarrow> string list list" where
  "rowsOf st = map (lookup (results st)) (files st)"

definition mismatches :: "cstate \<Rightarrow> string list list" where
  "mismatches st = filter (\<lambda>row. \<not> matches row) (rowsOf st)"

text \<open>
  The report a run should write: the rows of the keys in the order of their first
  occurrence, those that match left out.
\<close>

definition report :: "env \<Rightarrow> int \<Rightarrow> Reader list \<Rightarrow> string list list" where
  "report E join readers =
     filter (\<lambda>row. \<not> matches row)
       (map (\<lambda>key. rowOf E join (length readers) key (tagged 0 readers))
          (firstSeen (keysOf E join (tagged 0 readers))))"

text \<open>
  The spec's wording of a matching row, "identity-column text identical across all
  non-MISSING columns", as a predicate of its own.
\<close>

definition agreeNonMissing :: "string list \<Rightarrow> bool" where
  "agreeNonMissing row =
     (\<forall>a \<in> set (filter (\<lambda>c. c \<noteq> ''MISSING'') (tl row)).
        \<forall>b \<in> set (filter (\<lambda>c. c \<noteq> ''MISSING'') (tl row)). a = b)"

text \<open>A reader cut at its first error: it yields the same entries and then ends.\<close>

definition cutReader :: "Reader \<Rightarrow> Reader" where
  "cutReader rdr = map Inr (entries rdr)"

definition cutErrors :: "env \<Rightarrow> env" where
  "cutErrors E = E\<lparr>Open := (\<lambda>p. case Open E p of Inl err \<Rightarrow> Inl err | Inr rdr \<Rightarrow> Inr (cutReader rdr))\<rparr>"

text \<open>The paths \<open>openAll\<close> opens: all of them up to the first that fails, that one included.\<close>

fun tried :: "env \<Rightarrow> string list \<Rightarrow> string list" where
  "tried E [] = []"
| "tried E (v # vs) = (case Open E v of Inl err \<Rightarrow> [v] | Inr rdr \<Rightarrow> v # tried E vs)"

text \<open>The readers a list of paths opens to, when every one of them opens.\<close>

definition readersOf :: "env \<Rightarrow> string list \<Rightarrow> Reader list" where
  "readersOf E paths = map (\<lambda>v. case Open E v of Inl err \<Rightarrow> [] | Inr rdr \<Rightarrow> rdr) paths"

definition allOpen :: "env \<Rightarrow> string list \<Rightarrow> bool" where
  "allOpen E paths = list_all (\<lambda>v. case Open E v of Inl err \<Rightarrow> False | Inr rdr \<Rightarrow> True) paths"

subsection \<open>Example inputs\<close>

definition mkFile :: "string \<Rightarrow> string list \<Rightarrow> File" where
  "mkFile p ids = \<lparr>Path = p, Size = 0, Mod = [], Hash = [], IDs = map Identification ids\<rparr>"

text \<open>
  An environment over a list of result files: a path opens when it is listed, base names
  are what follows the last slash, sizes print as nothing, and every write succeeds.
\<close>

definition sampleEnv :: "(string \<times> Reader) list \<Rightarrow> env" where
  "sampleEnv fs =
     \<lparr>Base = (\<lambda>p. rev (takeWhile (\<lambda>c. c \<noteq> CHR ''/'') (rev p))),
      FormatInt = (\<lambda>n. []),
      Open = (\<lambda>p. case map_of fs p of None \<Rightarrow> Inl (Failure ''cannot open'') | Some rdr \<Rightarrow> Inr rdr),
      Write = (\<lambda>written row. None)\<rparr>"

text \<open>
  Five result files: \<open>a\<close> and \<open>b\<close> agree on \<open>x\<close>, and \<open>y\<close> is only in \<open>a\<close>; \<open>empty\<close> has no
  entry; the second entry of \<open>broken\<close> cannot be parsed; \<open>twice\<close> has two entries with
  the base name \<open>x\<close>, and identifications out of order and repeated.
\<close>

definition exFiles :: "(string \<times> Reader) list" where
  "exFiles =
     [(''a'', [Inr (mkFile ''d/x'' [''fmt/1'']), Inr (mkFile ''d/y'' [''fmt/2''])]),
      (''b'', [Inr (mkFile ''e/x'' [''fmt/1''])]),
      (''empty'', []),
      (''broken'', [Inr (mkFile ''d/x'' [''fmt/1'']), Inl (Failure ''parse error''),
                    Inr (mkFile ''d/y'' [''fmt/2''])]),
      (''twice'', [Inr (mkFile ''d/x'' [''fmt/3'', ''fmt/1'']),
                   Inr (mkFile ''e/x'' [''fmt/1'', ''fmt/1''])])]"

definition exEnv :: env where
  "exEnv = sampleEnv exFiles"

text \<open>
  One more result file, \<open>again\<close>: two entries with the base name \<open>x\<close>, in other directories
  than those of \<open>b\<close>, the last with its identifications out of order.
\<close>

definition exEnv2 :: env where
  "exEnv2 =
     sampleEnv
       ((''again'', [Inr (mkFile ''g/x'' [''fmt/1'']),
                     Inr (mkFile ''h/x'' [''fmt/3'', ''fmt/1'', ''fmt/2''])]) # exFiles)"

text \<open>The same with an output that takes \<open>k\<close> records and then fails.\<close>

definition fullAfter :: "nat \<Rightarrow> env \<Rightarrow> env" where
  "fullAfter k E =
     E\<lparr>Write := (\<lambda>written row. if length written < k then None else Some (Failure ''write failed''))\<rparr>"

section \<open>Identifier registry: \<open>pkg/core/core.go\<close>\<close>

text \<open>A run-time panic of an index expression: the index and the length.\<close>

datatype panic = IndexOutOfRange nat nat

text \<open>
  The cursor \<open>LoadSaver\<close> of the signature package: a buffer, a position in it, and the
  sticky error \<open>Err\<close>.
\<close>

record LoadSaver =
  buf :: "8 word list"
  pos :: nat
  Err :: "error option"

text \<open>
  Modelled from the spec: \<open>LoadByte\<close> of the signature package, which is not among the
  sources. The spec: "a sequential cursor over a binary buffer with an internal sticky error
  state -- once an error occurs, all subsequent reads are no-ops returning zero values";
  a truncated buffer is one of the errors "captured as sticky state on the load cursor".
\<close>

definition LoadByte :: "LoadSaver \<Rightarrow> 8 word \<times> LoadSaver" where
  "LoadByte ls =
     (if Err ls \<noteq> None then (0, ls)
      else if pos ls < length (buf ls) then (buf ls ! pos ls, ls\<lparr>pos := pos ls + 1\<rparr>)
      else (0, ls\<lparr>Err := Some (Failure ''truncated buffer'')\<rparr>))"

text \<open>
  An \<open>IdentifierLoader\<close> takes the cursor and returns an \<open>Identifier\<close> (\<open>None\<close> is the nil
  interface value) and the cursor as it leaves it. The table \<open>loaders\<close> is an array of 8
  slots, \<open>None\<close> for a nil function; indexing it at 8 or more panics.
\<close>

type_synonym 'a IdentifierLoader = "LoadSaver \<Rightarrow> 'a option \<times> LoadSaver"

definition loaders :: "'a IdentifierLoader option list" where
  "loaders = [None, None, None, None, None, None, None, None]"

definition RegisterIdentifier :: "8 word \<Rightarrow> 'a IdentifierLoader option
    \<Rightarrow> 'a IdentifierLoader option list \<Rightarrow> panic + 'a IdentifierLoader option list" where
  "RegisterIdentifier tag l tbl =
     (if unat tag < 8 then Inr (tbl[unat tag := l]) else Inl (IndexOutOfRange (unat tag) 8))"

definition LoadIdentifier :: "'a IdentifierLoader option list \<Rightarrow> LoadSaver
    \<Rightarrow> panic + 'a option \<times> LoadSaver" where
  "LoadIdentifier tbl ls =
     (case LoadByte ls of
        (tag, ls1) \<Rightarrow>
          if \<not> unat tag < 8 then Inl (IndexOutOfRange (unat tag) 8)
          else
            (case tbl ! unat tag of
               None \<Rightarrow>
                 Inr (None,
                      if Err ls1 = None then ls1\<lparr>Err := Some (Failure ''bad identifier loader'')\<rparr>
                      else ls1)
             | Some l \<Rightarrow> Inr (l ls1)))"

section \<open>The loops as folds\<close>

lemma consume_Nil: "consume E join n i [] st = st\<lparr>trace := trace st @ [NextEntry i]\<rparr>"
  by (simp add: consume.simps Next_def)

lemma consume_Inl: "consume E join n i (Inl e # rdr) st = st\<lparr>trace := trace st @ [NextEntry i]\<rparr>"
  by (simp add: consume.simps Next_def)

lemma consume_Inr: "consume E join n i (Inr f # rdr) st =
     consume E join n i rdr (addEntry E join n i f (st\<lparr>trace := trace st @ [NextEntry i]\<rparr>))"
  by (subst consume.simps) (simp add: Next_def)

lemma addEntry_trace: "trace (addEntry E join n i f st) = trace st"
  by (simp add: addEntry_def Let_def split: option.splits)

lemma addEntry_trace_update:
  "addEntry E join n i f (st\<lparr>trace := t\<rparr>) = (addEntry E join n i f st)\<lparr>trace := t\<rparr>"
  by (simp add: addEntry_def Let_def split: option.splits)

lemma feed_Nil: "feed E join n st [] = st"
  by (simp add: feed_def)

lemma feed_Cons: "feed E join n st (p # xs) = feed E join n (addEntry E join n (fst p) (snd p) st) xs"
  by (simp add: feed_def)

lemma feed_append: "feed E join n st (xs @ ys) = feed E join n (feed E join n st xs) ys"
  by (simp add: feed_def)

lemma feed_snoc: "feed E join n st (xs @ [p]) = addEntry E join n (fst p) (snd p) (feed E join n st xs)"
  by (simp add: feed_def)

lemma feed_trace: "trace (feed E join n st xs) = trace st"
  by (induction xs arbitrary: st) (simp_all add: feed_Nil feed_Cons addEntry_trace)

lemma feed_trace_update:
  "feed E join n (st\<lparr>trace := t\<rparr>) xs = (feed E join n st xs)\<lparr>trace := t\<rparr>"
  by (induction xs arbitrary: st) (simp_all add: feed_Nil feed_Cons addEntry_trace_update)

lemma consume_feed:
  "consume E join n i rdr st =
     (feed E join n st (map (Pair i) (entries rdr)))
       \<lparr>trace := trace st @ replicate (Suc (length (entries rdr))) (NextEntry i)\<rparr>"
proof (induction rdr arbitrary: st)
  case Nil
  show ?case by (simp add: consume_Nil feed_Nil)
next
  case (Cons x rdr)
  show ?case
  proof (cases x)
    case (Inl e)
    then show ?thesis by (simp add: consume_Inl feed_Nil)
  next
    case (Inr f)
    then show ?thesis
      by (simp add: consume_Inr Cons.IH feed_Cons addEntry_trace addEntry_trace_update
          feed_trace_update replicate_app_Cons_same)
  qed
qed

text \<open>
  The inner loop reaches the state after every prefix of the entries: having read the
  entries \<open>fs\<close>, it goes on from the state the loop body has made of them.
\<close>

lemma consume_prefix:
  "consume E join n i (map Inr fs @ rdr) st =
     consume E join n i rdr
       ((feed E join n st (map (Pair i) fs))\<lparr>trace := trace st @ replicate (length fs) (NextEntry i)\<rparr>)"
proof (induction fs arbitrary: st)
  case Nil
  show ?case by (simp add: feed_Nil)
next
  case (Cons f fs)
  show ?case
    by (simp add: consume_Inr Cons.IH feed_Cons addEntry_trace addEntry_trace_update
        feed_trace_update replicate_app_Cons_same)
qed

lemma readAll_feed:
  "readAll E join n i rdrs st =
     (feed E join n st (tagged i rdrs))\<lparr>trace := trace st @ nexts i rdrs\<rparr>"
proof (induction rdrs arbitrary: i st)
  case Nil
  show ?case by (simp add: feed_Nil)
next
  case (Cons rdr rdrs)
  show ?case
    by (simp add: Cons.IH consume_feed feed_append feed_trace_update feed_trace)
qed

lemma reconcile_feed:
  "reconcile E join readers tr =
     (feed E join (length readers) (start tr) (tagged 0 readers))\<lparr>trace := tr @ nexts 0 readers\<rparr>"
  by (simp add: reconcile_def readAll_feed start_def)

section \<open>The table after any number of entries\<close>

lemma firstSeen_Nil: "firstSeen [] = []"
  by (simp add: firstSeen_def)

lemma firstSeen_snoc:
  "firstSeen (ks @ [k]) = (if k \<in> set ks then firstSeen ks else firstSeen ks @ [k])"
  by (simp add: firstSeen_def)

lemma set_firstSeen: "set (firstSeen ks) = set ks"
  by (simp add: firstSeen_def)

lemma distinct_firstSeen: "distinct (firstSeen ks)"
  by (simp add: firstSeen_def)

lemma length_firstSeen: "length (firstSeen ks) = card (set ks)"
  by (simp add: firstSeen_def length_remdups_card_conv)

lemma list_update_map_upt:
  "i < n \<Longrightarrow> (map g [0..<n])[i := v] = map (g(i := v)) [0..<n]"
  by (rule nth_equalityI) (auto simp: nth_list_update)

lemma replicate_map_upt: "replicate n v = map (\<lambda>j. v) [0..<n]"
  by (rule nth_equalityI) auto

lemma withKey_snoc:
  "withKey E join key (xs @ [p]) =
     (if keygen E join (snd p) = key then withKey E join key xs @ [p] else withKey E join key xs)"
  by (simp add: withKey_def)

lemma withKey_Nil_iff: "withKey E join key xs = [] \<longleftrightarrow> key \<notin> set (keysOf E join xs)"
  by (auto simp: withKey_def keysOf_def filter_empty_conv)

lemma column_snoc:
  "column E join key (xs @ [p]) j =
     (if keygen E join (snd p) = key \<and> fst p = j then idStr (snd p) else column E join key xs j)"
  by (simp add: column_def withKey_snoc fromSet_def Let_def)

lemma column_fun_upd:
  "column E join (keygen E join f) (xs @ [(i, f)]) =
     (column E join (keygen E join f) xs)(i := idStr f)"
  by (rule ext) (simp add: column_snoc)

lemma column_no_key:
  "key \<notin> set (keysOf E join xs) \<Longrightarrow> column E join key xs j = ''MISSING''"
  using withKey_Nil_iff [of E join key xs] by (simp add: column_def fromSet_def Let_def)

lemma rowOf_other:
  "keygen E join (snd p) \<noteq> key \<Longrightarrow> rowOf E join n key (xs @ [p]) = rowOf E join n key xs"
proof -
  assume a: "keygen E join (snd p) \<noteq> key"
  then have "column E join key (xs @ [p]) = column E join key xs"
    by (rule_tac ext) (simp add: column_snoc)
  then show ?thesis
    using a by (simp add: rowOf_def withKey_snoc split: list.splits)
qed

lemma rowOf_new:
  assumes "keygen E join f \<notin> set (keysOf E join xs)" and "i < n"
  shows "rowOf E join n (keygen E join f) (xs @ [(i, f)]) = (newRow n (Path f))[i + 1 := idStr f]"
proof -
  have e: "withKey E join (keygen E join f) xs = []"
    using assms(1) by (simp add: withKey_Nil_iff)
  have c: "column E join (keygen E join f) xs = (\<lambda>j. ''MISSING'')"
    using assms(1) by (rule_tac ext) (simp add: column_no_key)
  show ?thesis
    using assms(2)
    by (simp add: rowOf_def withKey_snoc e column_fun_upd c newRow_def replicate_map_upt
        list_update_map_upt)
qed

lemma rowOf_old:
  assumes "keygen E join f \<in> set (keysOf E join xs)" and "i < n"
  shows "rowOf E join n (keygen E join f) (xs @ [(i, f)]) =
           (rowOf E join n (keygen E join f) xs)[i + 1 := idStr f]"
proof -
  obtain p ps where e: "withKey E join (keygen E join f) xs = p # ps"
    using assms(1) withKey_Nil_iff [of E join "keygen E join f" xs] by (cases "withKey E join (keygen E join f) xs") auto
  show ?thesis
    using assms(2)
    by (simp add: rowOf_def withKey_snoc e column_fun_upd list_update_map_upt)
qed

lemma keysOf_snoc: "keysOf E join (xs @ [p]) = keysOf E join xs @ [keygen E join (snd p)]"
  by (simp add: keysOf_def)

lemma feed_table:
  assumes "\<forall>p \<in> set xs. fst p < n"
  shows "results (feed E join n (start tr) xs) =
           (\<lambda>key. if key \<in> set (keysOf E join xs) then Some (rowOf E join n key xs) else None)
         \<and> files (feed E join n (start tr) xs) = firstSeen (keysOf E join xs)"
  using assms
proof (induction xs rule: rev_induct)
  case Nil
  show ?case by (simp add: feed_Nil start_def keysOf_def firstSeen_Nil)
next
  case (snoc p xs)
  obtain i f where p: "p = (i, f)" by (cases p)
  let ?st = "feed E join n (start tr) xs"
  let ?k = "keygen E join f"
  have IH: "results ?st = (\<lambda>key. if key \<in> set (keysOf E join xs) then Some (rowOf E join n key xs) else None)"
     "files ?st = firstSeen (keysOf E join xs)"
    using snoc by simp_all
  have i: "i < n" using snoc.prems p by simp
  show ?case
  proof (cases "?k \<in> set (keysOf E join xs)")
    case True
    have "results (addEntry E join n i f ?st) =
        (\<lambda>key. if key \<in> set (keysOf E join (xs @ [p])) then Some (rowOf E join n key (xs @ [p])) else None)"
      using True i
      by (rule_tac ext) (auto simp: addEntry_def Let_def IH lookup_def p keysOf_snoc rowOf_old rowOf_other)
    moreover have "files (addEntry E join n i f ?st) = firstSeen (keysOf E join (xs @ [p]))"
      using True by (simp add: addEntry_def Let_def IH p keysOf_snoc firstSeen_snoc)
    ultimately show ?thesis by (simp add: feed_snoc p)
  next
    case False
    have "results (addEntry E join n i f ?st) =
        (\<lambda>key. if key \<in> set (keysOf E join (xs @ [p])) then Some (rowOf E join n key (xs @ [p])) else None)"
      using False i
      by (rule_tac ext) (auto simp: addEntry_def Let_def IH lookup_def p keysOf_snoc rowOf_new rowOf_other)
    moreover have "files (addEntry E join n i f ?st) = firstSeen (keysOf E join (xs @ [p]))"
      using False by (simp add: addEntry_def Let_def IH p keysOf_snoc firstSeen_snoc)
    ultimately show ?thesis by (simp add: feed_snoc p)
  qed
qed

lemma tagged_index: "p \<in> set (tagged i rdrs) \<Longrightarrow> i \<le> fst p \<and> fst p < i + length rdrs"
proof (induction rdrs arbitrary: i)
  case Nil
  then show ?case by simp
next
  case (Cons rdr rdrs)
  from Cons.prems have "p \<in> Pair i ` set (entries rdr) \<or> p \<in> set (tagged (Suc i) rdrs)"
    by simp
  then show ?case
  proof
    assume "p \<in> Pair i ` set (entries rdr)"
    then show ?thesis by auto
  next
    assume "p \<in> set (tagged (Suc i) rdrs)"
    from Cons.IH [OF this] show ?thesis by simp
  qed
qed

lemma tagged_bound: "\<forall>p \<in> set (tagged 0 rdrs). fst p < length rdrs"
  using tagged_index [of _ 0 rdrs] by auto

lemma take_tagged_bound: "\<forall>p \<in> set (take m (tagged 0 rdrs)). fst p < length rdrs"
  using tagged_bound [of rdrs] by (auto dest: in_set_takeD)

lemma length_rowOf:
  "key \<in> set (keysOf E join xs) \<Longrightarrow> length (rowOf E join n key xs) = Suc n"
  using withKey_Nil_iff [of E join key xs]
  by (simp add: rowOf_def split: list.splits)

lemma rowOf_no_key: "key \<notin> set (keysOf E join xs) \<Longrightarrow> rowOf E join n key xs = []"
  using withKey_Nil_iff [of E join key xs] by (simp add: rowOf_def)

lemma rowOf_path:
  "withKey E join key xs = p # ps \<Longrightarrow> rowOf E join n key xs ! 0 = Path (snd p)"
  by (simp add: rowOf_def)

lemma rowOf_column:
  "key \<in> set (keysOf E join xs) \<Longrightarrow> j < n \<Longrightarrow>
     rowOf E join n key xs ! Suc j = column E join key xs j"
  using withKey_Nil_iff [of E join key xs]
  by (simp add: rowOf_def split: list.splits)

lemma feed_lookup:
  assumes "\<forall>p \<in> set xs. fst p < n"
  shows "lookup (results (feed E join n (start tr) xs)) key = rowOf E join n key xs"
  using feed_table [OF assms, of E join tr]
  by (simp add: lookup_def rowOf_no_key)

text \<open>
  The index of the assignment \<open>results[key][i+1] = idStr(f)\<close> is inside the row: after any
  entries of readers below \<open>n\<close>, the row of the key (the new one, if the key is new) has
  \<open>n + 1\<close> columns.
\<close>

lemma addEntry_in_range:
  assumes "\<forall>p \<in> set xs. fst p < n" and "i < n"
  shows "i + 1 < length (case results (feed E join n (start tr) xs) (keygen E join f) of
                          None \<Rightarrow> newRow n (Path f) | Some row \<Rightarrow> row)"
  using feed_table [OF assms(1), of E join tr] assms(2)
  by (simp add: newRow_def length_rowOf)

section \<open>The writing loop\<close>

lemma records_Nil: "records [] = []"
  by (simp add: records_def)

lemma records_append: "records (tr @ tr') = records tr @ records tr'"
  by (simp add: records_def)

lemma records_WriteRecord: "records (map WriteRecord rows) = rows"
  by (induction rows) (simp_all add: records_def)

lemma records_OpenFile: "records (map OpenFile vs) = []"
  by (induction vs) (simp_all add: records_def)

lemma records_nexts: "records (nexts i rdrs) = []"
proof (induction rdrs arbitrary: i)
  case Nil
  show ?case by (simp add: records_def)
next
  case (Cons rdr rdrs)
  have "records (replicate k (NextEntry i)) = []" for k
    by (induction k) (simp_all add: records_def)
  then have "records (replicate (Suc (length (entries rdr))) (NextEntry i)) = []" .
  then show ?case using Cons by (simp only: nexts.simps records_append) simp
qed

lemma writeAll_ok:
  assumes "\<forall>m < length (filter (\<lambda>row. \<not> matches row) (map (lookup res) fs)).
             Write E (records tr @ take m (filter (\<lambda>row. \<not> matches row) (map (lookup res) fs)))
               (filter (\<lambda>row. \<not> matches row) (map (lookup res) fs) ! m) = None"
  shows "writeAll E res fs c tr =
           (None, c \<and> filter (\<lambda>row. \<not> matches row) (map (lookup res) fs) = [],
            tr @ map WriteRecord (filter (\<lambda>row. \<not> matches row) (map (lookup res) fs)))"
  using assms
proof (induction fs arbitrary: c tr)
  case Nil
  show ?case by simp
next
  case (Cons f fs)
  let ?rows = "filter (\<lambda>row. \<not> matches row) (map (lookup res) fs)"
  show ?case
  proof (cases "matches (lookup res f)")
    case True
    then show ?thesis using Cons by simp
  next
    case False
    have w: "Write E (records tr) (lookup res f) = None"
      using Cons.prems [rule_format, of 0] False by simp
    have "\<forall>m < length ?rows.
            Write E (records (tr @ [WriteRecord (lookup res f)]) @ take m ?rows) (?rows ! m) = None"
    proof (intro allI impI)
      fix m assume "m < length ?rows"
      then show "Write E (records (tr @ [WriteRecord (lookup res f)]) @ take m ?rows) (?rows ! m) = None"
        using Cons.prems [rule_format, of "Suc m"] False
        by (simp add: records_append records_def)
    qed
    from Cons.IH [OF this] show ?thesis
      using False w by simp
  qed
qed

lemma writeAll_fail:
  assumes "m < length (filter (\<lambda>row. \<not> matches row) (map (lookup res) fs))"
    and "\<forall>j < m.
             Write E (records tr @ take j (filter (\<lambda>row. \<not> matches row) (map (lookup res) fs)))
               (filter (\<lambda>row. \<not> matches row) (map (lookup res) fs) ! j) = None"
    and "Write E (records tr @ take m (filter (\<lambda>row. \<not> matches row) (map (lookup res) fs)))
               (filter (\<lambda>row. \<not> matches row) (map (lookup res) fs) ! m) = Some err"
  shows "writeAll E res fs c tr =
           (Some err, False,
            tr @ map WriteRecord (take m (filter (\<lambda>row. \<not> matches row) (map (lookup res) fs))))"
  using assms
proof (induction fs arbitrary: c tr m)
  case Nil
  then show ?case by simp
next
  case (Cons f fs)
  let ?rows = "filter (\<lambda>row. \<not> matches row) (map (lookup res) fs)"
  show ?case
  proof (cases "matches (lookup res f)")
    case True
    then show ?thesis using Cons.IH [of m tr c] Cons.prems by simp
  next
    case False
    show ?thesis
    proof (cases m)
      case 0
      then show ?thesis using Cons.prems(3) False by simp
    next
      case (Suc m')
      have w: "Write E (records tr) (lookup res f) = None"
        using Cons.prems(2) [rule_format, of 0] False Suc by simp
      have a: "m' < length ?rows" using Cons.prems(1) False Suc by simp
      have b: "\<forall>j < m'.
            Write E (records (tr @ [WriteRecord (lookup res f)]) @ take j ?rows) (?rows ! j) = None"
      proof (intro allI impI)
        fix j assume "j < m'"
        then show "Write E (records (tr @ [WriteRecord (lookup res f)]) @ take j ?rows) (?rows ! j) = None"
          using Cons.prems(2) [rule_format, of "Suc j"] False Suc
          by (simp add: records_append records_def)
      qed
      have c: "Write E (records (tr @ [WriteRecord (lookup res f)]) @ take m' ?rows) (?rows ! m') = Some err"
        using Cons.prems(3) False Suc by (simp add: records_append records_def)
      from Cons.IH [OF a b c] show ?thesis
        using False w Suc by simp
    qed
  qed
qed

section \<open>The opening loop and the whole of \<open>Compare\<close>\<close>

lemma openAll_trace: "snd (openAll E vs rs tr) = tr @ map OpenFile (tried E vs)"
  by (induction vs arbitrary: rs tr) (simp_all split: sum.splits)

lemma tried_allOpen: "allOpen E vs \<Longrightarrow> tried E vs = vs"
  by (induction vs) (simp_all add: allOpen_def split: sum.splits)

lemma openAll_allOpen:
  "allOpen E vs \<Longrightarrow> openAll E vs rs tr = (Inr (rs @ readersOf E vs), tr @ map OpenFile vs)"
  by (induction vs arbitrary: rs tr) (simp_all add: allOpen_def readersOf_def split: sum.splits)

lemma tried_prefix: "\<exists>rest. vs = tried E vs @ rest"
  by (induction vs) (simp_all split: sum.splits)

lemma openAll_not_allOpen:
  "\<not> allOpen E vs \<Longrightarrow>
     \<exists>err. fst (openAll E vs rs tr) = Inl err \<and> tried E vs \<noteq> [] \<and> Open E (last (tried E vs)) = Inl err
       \<and> allOpen E (butlast (tried E vs))"
proof (induction vs arbitrary: rs tr)
  case Nil
  then show ?case by (simp add: allOpen_def)
next
  case (Cons v vs)
  show ?case
  proof (cases "Open E v")
    case (Inl err)
    then show ?thesis by (simp add: allOpen_def)
  next
    case (Inr rdr)
    then have "\<not> allOpen E vs" using Cons.prems by (simp add: allOpen_def)
    from Cons.IH [OF this, of "rs @ [rdr]" "tr @ [OpenFile v]"] show ?thesis
      using Inr by (auto simp: allOpen_def)
  qed
qed

lemma allOpen_iff: "allOpen E vs \<longleftrightarrow> (\<forall>v \<in> set vs. \<exists>rdr. Open E v = Inr rdr)"
proof -
  have "(case Open E v of Inl err \<Rightarrow> False | Inr rdr \<Rightarrow> True) \<longleftrightarrow> (\<exists>rdr. Open E v = Inr rdr)" for v
    by (cases "Open E v") simp_all
  then show ?thesis by (simp add: allOpen_def list_all_iff)
qed

lemma length_readersOf: "length (readersOf E vs) = length vs"
  by (simp add: readersOf_def)

lemma Compare_few: "length paths < 2 \<Longrightarrow> Compare E join paths = (Some (TooFew (length paths)), [])"
  by (simp add: Compare_def)

lemma Compare_not_allOpen:
  assumes "2 \<le> length paths" and "\<not> allOpen E paths"
  shows "\<exists>err. Compare E join paths = (Some err, map OpenFile (tried E paths))
           \<and> tried E paths \<noteq> [] \<and> Open E (last (tried E paths)) = Inl err"
proof -
  from openAll_not_allOpen [OF assms(2), of "[]" "[]"] obtain err where
    e: "fst (openAll E paths [] []) = Inl err" "tried E paths \<noteq> []"
       "Open E (last (tried E paths)) = Inl err"
    by blast
  have "openAll E paths [] [] = (Inl err, map OpenFile (tried E paths))"
    using e(1) openAll_trace [of E paths "[]" "[]"] by (cases "openAll E paths [] []") simp
  then show ?thesis using assms(1) e by (simp add: Compare_def)
qed

lemma reconcile_trace:
  "trace (reconcile E join readers tr) = tr @ nexts 0 readers"
  by (simp add: reconcile_feed)

lemma reconcile_files:
  "files (reconcile E join readers tr) = firstSeen (keysOf E join (tagged 0 readers))"
  using feed_table [where xs = "tagged 0 readers" and n = "length readers" and E = E and join = join
      and tr = tr, OF tagged_bound] by (simp add: reconcile_feed)

lemma reconcile_results:
  "results (reconcile E join readers tr) =
     (\<lambda>key. if key \<in> set (keysOf E join (tagged 0 readers))
            then Some (rowOf E join (length readers) key (tagged 0 readers)) else None)"
  using feed_table [where xs = "tagged 0 readers" and n = "length readers" and E = E and join = join
      and tr = tr, OF tagged_bound] by (simp add: reconcile_feed)

lemma reconcile_lookup:
  "lookup (results (reconcile E join readers tr)) key =
     rowOf E join (length readers) key (tagged 0 readers)"
  by (simp add: reconcile_results lookup_def rowOf_no_key)

lemma reconcile_records: "records (trace (reconcile E join readers (map OpenFile vs))) = []"
  by (simp add: reconcile_trace records_append records_OpenFile records_nexts)

lemma Compare_writes_ok:
  assumes "2 \<le> length paths" and "allOpen E paths"
    and "st = reconcile E join (readersOf E paths) (map OpenFile paths)"
    and "\<forall>m < length (mismatches st). Write E (take m (mismatches st)) (mismatches st ! m) = None"
  shows "Compare E join paths =
           (None, trace st @ map WriteRecord (mismatches st) @ [Flush]
                    @ (if mismatches st = [] then [Print ''COMPLETE MATCH''] else []))"
proof -
  have r: "records (trace st) = []"
    using assms(3) by (simp add: reconcile_records)
  have "writeAll E (results st) (files st) True (trace st) =
          (None, mismatches st = [], trace st @ map WriteRecord (mismatches st))"
    using writeAll_ok [of "results st" "files st" E "trace st" True] assms(4) r
    by (simp add: mismatches_def rowsOf_def)
  then show ?thesis
    using assms(1,3) openAll_allOpen [OF assms(2), of "[]" "[]"]
    by (simp add: Compare_def Let_def)
qed

lemma Compare_write_fails:
  assumes "2 \<le> length paths" and "allOpen E paths"
    and "st = reconcile E join (readersOf E paths) (map OpenFile paths)"
    and "m < length (mismatches st)"
    and "\<forall>j < m. Write E (take j (mismatches st)) (mismatches st ! j) = None"
    and "Write E (take m (mismatches st)) (mismatches st ! m) = Some err"
  shows "Compare E join paths = (Some err, trace st @ map WriteRecord (take m (mismatches st)))"
proof -
  have r: "records (trace st) = []"
    using assms(3) by (simp add: reconcile_records)
  have "writeAll E (results st) (files st) True (trace st) =
          (Some err, False, trace st @ map WriteRecord (take m (mismatches st)))"
    using writeAll_fail [of m "results st" "files st" E "trace st" err True] assms(4,5,6) r
    by (simp add: mismatches_def rowsOf_def)
  then show ?thesis
    using assms(1,3) openAll_allOpen [OF assms(2), of "[]" "[]"]
    by (simp add: Compare_def Let_def)
qed

lemma first_failure:
  fixes W :: "nat \<Rightarrow> error option"
  shows "(\<forall>m < k. W m = None) \<or> (\<exists>m < k. (\<forall>j < m. W j = None) \<and> (\<exists>err. W m = Some err))"
proof (cases "\<forall>m < k. W m = None")
  case True
  then show ?thesis by simp
next
  case False
  then have "\<exists>m. m < k \<and> W m \<noteq> None" by blast
  then obtain m where m: "m < k \<and> W m \<noteq> None" "\<forall>j < m. \<not> (j < k \<and> W j \<noteq> None)"
    using exists_least_iff [of "\<lambda>m. m < k \<and> W m \<noteq> None"] by blast
  then have "\<forall>j < m. W j = None" by auto
  then show ?thesis using m(1) by auto
qed

lemma records_Cons:
  "records (OpenFile v # tr) = records tr"
  "records (NextEntry i # tr) = records tr"
  "records (WriteRecord r # tr) = r # records tr"
  "records (Flush # tr) = records tr"
  "records (Print s # tr) = records tr"
  by (simp_all add: records_def)

lemma Compare_cases:
  assumes "2 \<le> length paths" and "allOpen E paths"
    and "st = reconcile E join (readersOf E paths) (map OpenFile paths)"
  shows "Compare E join paths =
           (None, trace st @ map WriteRecord (mismatches st) @ [Flush]
                    @ (if mismatches st = [] then [Print ''COMPLETE MATCH''] else []))
         \<or> (\<exists>m err. m < length (mismatches st)
               \<and> Write E (take m (mismatches st)) (mismatches st ! m) = Some err
               \<and> Compare E join paths = (Some err, trace st @ map WriteRecord (take m (mismatches st))))"
proof -
  let ?W = "\<lambda>m. Write E (take m (mismatches st)) (mismatches st ! m)"
  from first_failure [of "length (mismatches st)" ?W] show ?thesis
  proof
    assume "\<forall>m < length (mismatches st). ?W m = None"
    from Compare_writes_ok [OF assms this] show ?thesis by simp
  next
    assume "\<exists>m < length (mismatches st). (\<forall>j < m. ?W j = None) \<and> (\<exists>err. ?W m = Some err)"
    then obtain m err where m: "m < length (mismatches st)" "\<forall>j < m. ?W j = None" "?W m = Some err"
      by blast
    from Compare_write_fails [OF assms m] m(1,3) show ?thesis by blast
  qed
qed

lemma records_trace_reconcile:
  "st = reconcile E join readers (map OpenFile vs) \<Longrightarrow> records (trace st) = []"
  by (simp add: reconcile_records)

lemma Compare_records:
  assumes "2 \<le> length paths" and "allOpen E paths"
    and "st = reconcile E join (readersOf E paths) (map OpenFile paths)"
  shows "\<exists>k. records (snd (Compare E join paths)) = take k (mismatches st)"
  using Compare_cases [OF assms]
proof
  assume "Compare E join paths =
           (None, trace st @ map WriteRecord (mismatches st) @ [Flush]
                    @ (if mismatches st = [] then [Print ''COMPLETE MATCH''] else []))"
  then have "records (snd (Compare E join paths)) = take (length (mismatches st)) (mismatches st)"
    by (simp add: records_trace_reconcile [OF assms(3)] records_append records_WriteRecord
        records_Cons records_Nil)
  then show ?thesis ..
next
  assume "\<exists>m err. m < length (mismatches st)
               \<and> Write E (take m (mismatches st)) (mismatches st ! m) = Some err
               \<and> Compare E join paths = (Some err, trace st @ map WriteRecord (take m (mismatches st)))"
  then obtain m err where "Compare E join paths = (Some err, trace st @ map WriteRecord (take m (mismatches st)))"
    by blast
  then have "records (snd (Compare E join paths)) = take m (mismatches st)"
    by (simp add: records_trace_reconcile [OF assms(3)] records_append records_WriteRecord)
  then show ?thesis ..
qed

lemma Compare_records_nil:
  assumes "2 \<le> length paths" and "allOpen E paths"
    and "st = reconcile E join (readersOf E paths) (map OpenFile paths)"
    and "fst (Compare E join paths) = None"
  shows "records (snd (Compare E join paths)) = mismatches st"
  using Compare_cases [OF assms(1,2,3)] assms(4)
  by (auto simp: records_trace_reconcile [OF assms(3)] records_append records_WriteRecord
      records_Cons records_Nil)

lemma feed_dom:
  assumes "\<forall>p \<in> set xs. fst p < n"
  shows "dom (results (feed E join n (start tr) xs)) = set (keysOf E join xs)"
  using feed_table [OF assms, of E join tr] by (auto simp: dom_def)

lemma reconcile_table:
  "files (reconcile E join readers tr) = files (feed E join (length readers) (start tr) (tagged 0 readers))
   \<and> results (reconcile E join readers tr) = results (feed E join (length readers) (start tr) (tagged 0 readers))"
  by (simp add: reconcile_feed)

lemma rowsOf_feed:
  assumes "\<forall>p \<in> set xs. fst p < n"
  shows "rowsOf (feed E join n (start tr) xs) =
           map (\<lambda>key. rowOf E join n key xs) (firstSeen (keysOf E join xs))"
  using feed_table [OF assms, of E join tr] feed_lookup [OF assms, of E join tr]
  by (simp add: rowsOf_def)

lemma rowsOf_reconcile:
  "rowsOf (reconcile E join readers tr) =
     map (\<lambda>key. rowOf E join (length readers) key (tagged 0 readers))
       (firstSeen (keysOf E join (tagged 0 readers)))"
  using rowsOf_feed [where xs = "tagged 0 readers" and n = "length readers" and E = E
      and join = join and tr = tr, OF tagged_bound]
  by (simp add: rowsOf_def reconcile_feed)

section \<open>Configuration errors\<close>

lemma not_open_nexts: "ev \<in> set (nexts i rdrs) \<Longrightarrow> \<exists>j. ev = NextEntry j"
  by (induction rdrs arbitrary: i) auto

lemmas sample_defs = exEnv_def exFiles_def sampleEnv_def mkFile_def allOpen_def readersOf_def

lemmas key_defs = keygen_def Path_join_def Filename_def FilenameSize_def FilenameMod_def
  FilenameHash_def Hash_join_def

text \<open>
  Claim C8. \<open>Compare\<close> with fewer than two paths returns its error with no effect at all: no
  file is opened. With two or more paths of which one does not open, it returns the error of
  the first such path, and all that has happened is the opening of the paths up to that one:
  no entry was read, nothing was written. When every path opens, all of them are opened, in
  order, before the first call of \<open>Next\<close>, and nothing is opened later.
\<close>

theorem Compare_fails_before_reading:
  "(length paths < 2 \<longrightarrow> Compare E join paths = (Some (TooFew (length paths)), []))
   \<and> (2 \<le> length paths \<and> \<not> allOpen E paths \<longrightarrow>
        (\<exists>err. Compare E join paths = (Some err, map OpenFile (tried E paths))
           \<and> tried E paths \<noteq> [] \<and> Open E (last (tried E paths)) = Inl err))
   \<and> (2 \<le> length paths \<and> allOpen E paths \<longrightarrow>
        (\<exists>rest. snd (Compare E join paths)
                  = map OpenFile paths @ nexts 0 (readersOf E paths) @ rest
           \<and> (\<forall>ev \<in> set rest. \<forall>v i. ev \<noteq> OpenFile v \<and> ev \<noteq> NextEntry i)))"
proof (intro conjI impI)
  assume "length paths < 2"
  then show "Compare E join paths = (Some (TooFew (length paths)), [])"
    by (rule Compare_few)
next
  assume "2 \<le> length paths \<and> \<not> allOpen E paths"
  then show "\<exists>err. Compare E join paths = (Some err, map OpenFile (tried E paths))
           \<and> tried E paths \<noteq> [] \<and> Open E (last (tried E paths)) = Inl err"
    using Compare_not_allOpen by blast
next
  assume a: "2 \<le> length paths \<and> allOpen E paths"
  define st where "st = reconcile E join (readersOf E paths) (map OpenFile paths)"
  have tr: "trace st = map OpenFile paths @ nexts 0 (readersOf E paths)"
    by (simp add: st_def reconcile_trace)
  let ?W = "\<lambda>m. Write E (take m (mismatches st)) (mismatches st ! m)"
  from first_failure [of "length (mismatches st)" ?W]
  show "\<exists>rest. snd (Compare E join paths)
                  = map OpenFile paths @ nexts 0 (readersOf E paths) @ rest
           \<and> (\<forall>ev \<in> set rest. \<forall>v i. ev \<noteq> OpenFile v \<and> ev \<noteq> NextEntry i)"
  proof
    assume "\<forall>m < length (mismatches st). ?W m = None"
    from Compare_writes_ok [OF _ _ st_def this] a
    have "snd (Compare E join paths) = map OpenFile paths @ nexts 0 (readersOf E paths)
            @ (map WriteRecord (mismatches st) @ [Flush]
                 @ (if mismatches st = [] then [Print ''COMPLETE MATCH''] else []))"
      by (simp add: tr)
    then show ?thesis by (rule_tac x = "map WriteRecord (mismatches st) @ [Flush]
                 @ (if mismatches st = [] then [Print ''COMPLETE MATCH''] else [])" in exI) auto
  next
    assume "\<exists>m < length (mismatches st). (\<forall>j < m. ?W j = None) \<and> (\<exists>err. ?W m = Some err)"
    then obtain m err where m: "m < length (mismatches st)" "\<forall>j < m. ?W j = None" "?W m = Some err"
      by blast
    from Compare_write_fails [OF _ _ st_def m] a
    have "snd (Compare E join paths) = map OpenFile paths @ nexts 0 (readersOf E paths)
            @ map WriteRecord (take m (mismatches st))"
      by (simp add: tr)
    then show ?thesis by (rule_tac x = "map WriteRecord (take m (mismatches st))" in exI) auto
  qed
qed

theorem Compare_fails_before_reading_witness:
  "Compare exEnv Path_join [''a''] = (Some (TooFew 1), [])
   \<and> (\<exists>err. Compare exEnv Path_join [''a'', ''c'', ''b'']
          = (Some err, [OpenFile ''a'', OpenFile ''c'']))
   \<and> (\<exists>rest. snd (Compare exEnv Path_join [''b'', ''b''])
          = [OpenFile ''b'', OpenFile ''b'', NextEntry 0, NextEntry 0, NextEntry 1, NextEntry 1] @ rest)"
proof -
  have h1: "length [''a''] < 2" by simp
  have h2: "2 \<le> length [''a'', ''c'', ''b''] \<and> \<not> allOpen exEnv [''a'', ''c'', ''b'']"
    by (simp add: sample_defs)
  have h3: "2 \<le> length [''b'', ''b''] \<and> allOpen exEnv [''b'', ''b'']"
    by (simp add: sample_defs)
  have t: "tried exEnv [''a'', ''c'', ''b''] = [''a'', ''c'']"
    by (simp add: sample_defs)
  have n: "nexts 0 (readersOf exEnv [''b'', ''b'']) = [NextEntry 0, NextEntry 0, NextEntry 1, NextEntry 1]"
    by (simp add: sample_defs)
  show ?thesis
    using Compare_fails_before_reading [of "[''a'']" exEnv Path_join, THEN conjunct1, rule_format, OF h1]
      Compare_fails_before_reading [of "[''a'', ''c'', ''b'']" exEnv Path_join, THEN conjunct2, THEN conjunct1, rule_format, OF h2]
      Compare_fails_before_reading [of "[''b'', ''b'']" exEnv Path_join, THEN conjunct2, THEN conjunct2, rule_format, OF h3]
    unfolding t n by auto
qed

section \<open>The invariant of the table\<close>

lemma mismatches_reconcile:
  "mismatches (reconcile E join readers tr) = report E join readers"
  by (simp add: mismatches_def rowsOf_reconcile report_def)

lemma Compare_cases_first:
  assumes "2 \<le> length paths" and "allOpen E paths"
    and "st = reconcile E join (readersOf E paths) (map OpenFile paths)"
  shows "Compare E join paths =
           (None, trace st @ map WriteRecord (mismatches st) @ [Flush]
                    @ (if mismatches st = [] then [Print ''COMPLETE MATCH''] else []))
         \<or> (\<exists>m err. m < length (mismatches st)
               \<and> (\<forall>j < m. Write E (take j (mismatches st)) (mismatches st ! j) = None)
               \<and> Write E (take m (mismatches st)) (mismatches st ! m) = Some err
               \<and> Compare E join paths = (Some err, trace st @ map WriteRecord (take m (mismatches st))))"
proof -
  let ?W = "\<lambda>m. Write E (take m (mismatches st)) (mismatches st ! m)"
  from first_failure [of "length (mismatches st)" ?W] show ?thesis
  proof
    assume "\<forall>m < length (mismatches st). ?W m = None"
    from Compare_writes_ok [OF assms this] show ?thesis by simp
  next
    assume "\<exists>m < length (mismatches st). (\<forall>j < m. ?W j = None) \<and> (\<exists>err. ?W m = Some err)"
    then obtain m err where m: "m < length (mismatches st)" "\<forall>j < m. ?W j = None" "?W m = Some err"
      by blast
    from Compare_write_fails [OF assms m] m show ?thesis by blast
  qed
qed

lemma Compare_report:
  assumes "2 \<le> length paths" and "allOpen E paths" and "readers = readersOf E paths"
  shows "(fst (Compare E join paths) = None \<longrightarrow>
            records (snd (Compare E join paths)) = report E join readers)
       \<and> (\<forall>err. fst (Compare E join paths) = Some err \<longrightarrow>
            (\<exists>m < length (report E join readers).
                records (snd (Compare E join paths)) = take m (report E join readers)
              \<and> (\<forall>j < m. Write E (take j (report E join readers)) (report E join readers ! j) = None)
              \<and> Write E (take m (report E join readers)) (report E join readers ! m) = Some err))"
proof -
  define st where "st = reconcile E join (readersOf E paths) (map OpenFile paths)"
  have mm: "mismatches st = report E join readers"
    by (simp add: st_def mismatches_reconcile assms(3))
  have r: "records (trace st) = []"
    by (simp add: st_def reconcile_records)
  from Compare_cases_first [OF assms(1,2) st_def] show ?thesis
  proof
    assume ok: "Compare E join paths =
           (None, trace st @ map WriteRecord (mismatches st) @ [Flush]
                    @ (if mismatches st = [] then [Print ''COMPLETE MATCH''] else []))"
    have "records (snd (Compare E join paths)) = report E join readers"
      by (simp add: ok records_append r records_WriteRecord records_Cons records_Nil mm)
    then show ?thesis by (simp add: ok)
  next
    assume "\<exists>m err. m < length (mismatches st)
               \<and> (\<forall>j < m. Write E (take j (mismatches st)) (mismatches st ! j) = None)
               \<and> Write E (take m (mismatches st)) (mismatches st ! m) = Some err
               \<and> Compare E join paths = (Some err, trace st @ map WriteRecord (take m (mismatches st)))"
    then obtain m err where m: "m < length (report E join readers)"
      and w: "\<forall>j < m. Write E (take j (report E join readers)) (report E join readers ! j) = None"
             "Write E (take m (report E join readers)) (report E join readers ! m) = Some err"
      and f: "Compare E join paths = (Some err, trace st @ map WriteRecord (take m (report E join readers)))"
      unfolding mm by blast
    have "records (snd (Compare E join paths)) = take m (report E join readers)"
      by (simp add: f records_append r records_WriteRecord)
    then show ?thesis using m w by (auto simp: f)
  qed
qed

text \<open>
  Claim C6. At every moment of the reading loops, that is after the first \<open>m\<close> entries in
  the order the loops read them, for every \<open>m\<close>: the map \<open>results\<close> has a row for exactly the
  keys read so far, and \<open>files\<close> lists these keys once each, in the order of their first
  occurrence; every row has \<open>1 + N\<close> columns for \<open>N\<close> paths, its column 0 is the path of the
  first entry read with that key, and its column \<open>j + 1\<close> is \<open>"MISSING"\<close> when result set \<open>j\<close>
  has had no entry with the key. Once all entries are read this is the table \<open>Compare\<close>
  works on. The rows are emitted in the order of first occurrence of their keys: a run that
  returns nil has written exactly \<open>report\<close>, the rows that do not match in that order, all of
  them; a run that returns an error has written the first \<open>k\<close> of them, all that come before
  the write that failed with this error.
\<close>

theorem table_invariant:
  assumes "2 \<le> length paths" and "allOpen E paths" and "readers = readersOf E paths"
    and "xs = take m (tagged 0 readers)"
    and "st = feed E join (length paths) (start tr) xs"
  shows "dom (results st) = set (keysOf E join xs)
       \<and> distinct (files st) \<and> set (files st) = dom (results st)
       \<and> files st = firstSeen (keysOf E join xs)
       \<and> (\<forall>key row. results st key = Some row \<longrightarrow>
             length row = 1 + length paths
           \<and> (\<exists>p ps. withKey E join key xs = p # ps \<and> row ! 0 = Path (snd p))
           \<and> (\<forall>j < length paths. fromSet j (withKey E join key xs) = [] \<longrightarrow> row ! (j + 1) = ''MISSING''))
       \<and> (length (tagged 0 readers) \<le> m \<longrightarrow>
             files (reconcile E join readers tr) = files st
           \<and> results (reconcile E join readers tr) = results st)
       \<and> report E join readers
            = filter (\<lambda>row. \<not> matches row)
                (map (\<lambda>key. rowOf E join (length paths) key (tagged 0 readers))
                   (firstSeen (keysOf E join (tagged 0 readers))))
       \<and> (fst (Compare E join paths) = None \<longrightarrow>
             records (snd (Compare E join paths)) = report E join readers)
       \<and> (\<forall>err. fst (Compare E join paths) = Some err \<longrightarrow>
             (\<exists>k < length (report E join readers).
                 records (snd (Compare E join paths)) = take k (report E join readers)
               \<and> (\<forall>j < k. Write E (take j (report E join readers)) (report E join readers ! j) = None)
               \<and> Write E (take k (report E join readers)) (report E join readers ! k) = Some err))"
proof -
  have n: "length readers = length paths"
    using assms(3) by (simp add: length_readersOf)
  have b: "\<forall>p \<in> set xs. fst p < length readers"
    using assms(4) take_tagged_bound by simp
  have st: "st = feed E join (length readers) (start tr) xs"
    using assms(5) n by simp
  note T = feed_table [OF b, of E join tr, folded st]
  have 1: "dom (results st) = set (keysOf E join xs)"
    using feed_dom [OF b, of E join tr] st by simp
  have 2: "files st = firstSeen (keysOf E join xs)"
    using T by simp
  have 3: "distinct (files st) \<and> set (files st) = dom (results st)"
    by (simp add: 1 2 distinct_firstSeen set_firstSeen)
  have 4: "length row = 1 + length paths
           \<and> (\<exists>p ps. withKey E join key xs = p # ps \<and> row ! 0 = Path (snd p))
           \<and> (\<forall>j < length paths. fromSet j (withKey E join key xs) = [] \<longrightarrow> row ! (j + 1) = ''MISSING'')"
    if r: "results st key = Some row" for key row
  proof -
    have k: "key \<in> set (keysOf E join xs)" and row: "row = rowOf E join (length readers) key xs"
      using r T by (simp_all split: if_splits)
    obtain p ps where w: "withKey E join key xs = p # ps"
      using k withKey_Nil_iff [of E join key xs] by (cases "withKey E join key xs") auto
    have "\<forall>j < length paths. fromSet j (withKey E join key xs) = [] \<longrightarrow> row ! (j + 1) = ''MISSING''"
      using k by (simp add: row n rowOf_column column_def)
    then show ?thesis
      using w by (auto simp: row n length_rowOf [OF k] rowOf_path [OF w])
  qed
  have 5: "files (reconcile E join readers tr) = files st
           \<and> results (reconcile E join readers tr) = results st"
    if "length (tagged 0 readers) \<le> m"
    using that assms(4) st by (simp add: reconcile_feed)
  have 6: "report E join readers
            = filter (\<lambda>row. \<not> matches row)
                (map (\<lambda>key. rowOf E join (length paths) key (tagged 0 readers))
                   (firstSeen (keysOf E join (tagged 0 readers))))"
    by (simp add: report_def n)
  note 7 = Compare_report [OF assms(1,2,3), of join]
  show ?thesis
    using 1 2 3 4 5 6 7 by blast
qed

theorem table_invariant_witness:
  "2 \<le> length [''a'', ''b''] \<and> allOpen exEnv [''a'', ''b'']
   \<and> files (feed exEnv Filename (length [''a'', ''b'']) (start [])
        (take 3 (tagged 0 (readersOf exEnv [''a'', ''b''])))) = [''x'', ''y'']
   \<and> report exEnv Filename (readersOf exEnv [''a'', ''b'']) = [[''d/y'', ''fmt/2'', ''MISSING'']]
   \<and> fst (Compare exEnv Filename [''a'', ''b'']) = None
   \<and> records (snd (Compare exEnv Filename [''a'', ''b''])) = [[''d/y'', ''fmt/2'', ''MISSING'']]
   \<and> allOpen (fullAfter 1 exEnv) [''broken'', ''b'']
   \<and> report (fullAfter 1 exEnv) Path_join (readersOf (fullAfter 1 exEnv) [''broken'', ''b''])
        = [[''d/x'', ''fmt/1'', ''MISSING''], [''e/x'', ''MISSING'', ''fmt/1'']]
   \<and> fst (Compare (fullAfter 1 exEnv) Path_join [''broken'', ''b'']) = Some (Failure ''write failed'')
   \<and> records (snd (Compare (fullAfter 1 exEnv) Path_join [''broken'', ''b'']))
        = [[''d/x'', ''fmt/1'', ''MISSING'']]"
proof -
  have h1: "2 \<le> length [''a'', ''b'']" by simp
  have h2: "allOpen exEnv [''a'', ''b'']" by (simp add: sample_defs)
  have t: "tagged 0 (readersOf exEnv [''a'', ''b'']) =
             [(0, mkFile ''d/x'' [''fmt/1'']), (0, mkFile ''d/y'' [''fmt/2'']), (1, mkFile ''e/x'' [''fmt/1''])]"
    by (simp add: exEnv_def exFiles_def sampleEnv_def readersOf_def)
  have k: "firstSeen (keysOf exEnv Filename (take 3 (tagged 0 (readersOf exEnv [''a'', ''b'']))))
             = [''x'', ''y'']"
    unfolding t by (simp add: firstSeen_def keysOf_def key_defs sample_defs)
  have k': "firstSeen (keysOf exEnv Filename (tagged 0 (readersOf exEnv [''a'', ''b''])))
             = [''x'', ''y'']"
    unfolding t by (simp add: firstSeen_def keysOf_def key_defs sample_defs)
  have r: "map (\<lambda>key. rowOf exEnv Filename (length [''a'', ''b'']) key
                  (tagged 0 (readersOf exEnv [''a'', ''b''])))
             [''x'', ''y''] = [[''d/x'', ''fmt/1'', ''fmt/1''], [''d/y'', ''fmt/2'', ''MISSING'']]"
    unfolding t
    by (simp add: rowOf_def withKey_def column_def fromSet_def idStr_def key_defs sample_defs
        upt_rec [of 0] upt_rec [of 1] upt_rec [of 2])
  have m: "filter (\<lambda>row. \<not> matches row) [[''d/x'', ''fmt/1'', ''fmt/1''], [''d/y'', ''fmt/2'', ''MISSING'']]
             = [[''d/y'', ''fmt/2'', ''MISSING'']]"
    by (simp add: matches_def)
  have c: "fst (Compare exEnv Filename [''a'', ''b'']) = None"
    by (simp add: Compare_def reconcile_def start_def consume_Nil consume_Inl consume_Inr
        addEntry_def Let_def lookup_def newRow_def idStr_def matches_def key_defs sample_defs
        records_def)
  have first: "files (feed exEnv Filename (length [''a'', ''b'']) (start [])
        (take 3 (tagged 0 (readersOf exEnv [''a'', ''b''])))) = [''x'', ''y'']
   \<and> report exEnv Filename (readersOf exEnv [''a'', ''b'']) = [[''d/y'', ''fmt/2'', ''MISSING'']]
   \<and> records (snd (Compare exEnv Filename [''a'', ''b''])) = [[''d/y'', ''fmt/2'', ''MISSING'']]"
    using table_invariant [OF h1 h2 refl refl refl, of Filename "[]" 3] c
    unfolding k k' r m by simp
  let ?E = "fullAfter 1 exEnv"
  let ?rep = "report ?E Path_join (readersOf ?E [''broken'', ''b''])"
  have g1: "2 \<le> length [''broken'', ''b'']" by simp
  have g2: "allOpen ?E [''broken'', ''b'']" by (simp add: fullAfter_def sample_defs)
  have t2: "tagged 0 (readersOf ?E [''broken'', ''b'']) =
              [(0, mkFile ''d/x'' [''fmt/1'']), (1, mkFile ''e/x'' [''fmt/1''])]"
    by (simp add: fullAfter_def exEnv_def exFiles_def sampleEnv_def readersOf_def)
  have n2: "length (readersOf ?E [''broken'', ''b'']) = 2"
    by (simp add: readersOf_def)
  have rep: "?rep = [[''d/x'', ''fmt/1'', ''MISSING''], [''e/x'', ''MISSING'', ''fmt/1'']]"
    unfolding report_def t2 n2
    by (simp add: firstSeen_def keysOf_def rowOf_def withKey_def column_def fromSet_def
        idStr_def matches_def key_defs mkFile_def
        upt_rec [of 0] upt_rec [of "Suc 0"] upt_rec [of 1] upt_rec [of 2])
  have c2: "fst (Compare ?E Path_join [''broken'', ''b'']) = Some (Failure ''write failed'')"
    by (simp add: Compare_def reconcile_def start_def consume_Nil consume_Inl consume_Inr
        addEntry_def Let_def lookup_def newRow_def idStr_def matches_def key_defs fullAfter_def
        sample_defs records_def)
  note fails = table_invariant [OF g1 g2 refl refl refl, of Path_join "[]" 0,
      THEN conjunct2, THEN conjunct2, THEN conjunct2, THEN conjunct2, THEN conjunct2,
      THEN conjunct2, THEN conjunct2, THEN conjunct2, rule_format, OF c2]
  then obtain j where j: "j < length ?rep"
    "records (snd (Compare ?E Path_join [''broken'', ''b''])) = take j ?rep"
    "Write ?E (take j ?rep) (?rep ! j) = Some (Failure ''write failed'')"
    by blast
  have "j \<noteq> 0"
  proof
    assume "j = 0"
    with j(3) have "Write ?E [] (?rep ! 0) = Some (Failure ''write failed'')" by simp
    then show False by (simp add: fullAfter_def)
  qed
  then have "j = 1"
    using j(1) unfolding rep by simp
  then have second: "records (snd (Compare ?E Path_join [''broken'', ''b'']))
        = [[''d/x'', ''fmt/1'', ''MISSING'']]"
    using j(2) unfolding rep by simp
  show ?thesis
    using h1 h2 c first g2 rep c2 second by simp
qed

section \<open>A key that occurs again in one result set\<close>

lemma fromSet_map_Pair: "fromSet j (map (Pair i) fs) = (if i = j then fs else [])"
  by (induction fs) (auto simp: fromSet_def)

lemma fromSet_append: "fromSet j (xs @ ys) = fromSet j xs @ fromSet j ys"
  by (simp add: fromSet_def)

lemma fromSet_tagged:
  "fromSet j (tagged i rdrs) = (if i \<le> j \<and> j < i + length rdrs then entries (rdrs ! (j - i)) else [])"
proof (induction rdrs arbitrary: i)
  case Nil
  show ?case by (auto simp: fromSet_def)
next
  case (Cons rdr rdrs)
  show ?case
    by (auto simp: fromSet_append fromSet_map_Pair Cons.IH Suc_diff_le nth_Cons')
qed

lemma fromSet_withKey:
  "fromSet j (withKey E join key xs) = filter (\<lambda>f. keygen E join f = key) (fromSet j xs)"
  by (induction xs) (simp_all add: fromSet_def withKey_def)

lemma column_tagged:
  assumes "j < length rdrs"
  shows "column E join key (tagged 0 rdrs) j =
           (if filter (\<lambda>f. keygen E join f = key) (entries (rdrs ! j)) = [] then ''MISSING''
            else idStr (last (filter (\<lambda>f. keygen E join f = key) (entries (rdrs ! j)))))"
  using assms by (simp add: column_def fromSet_withKey fromSet_tagged)

lemma withKey_append:
  "withKey E join key (xs @ ys) = withKey E join key xs @ withKey E join key ys"
  by (simp add: withKey_def)

lemma withKey_map_Pair:
  "withKey E join key (map (Pair i) fs) = map (Pair i) (filter (\<lambda>f. keygen E join f = key) fs)"
  by (induction fs) (simp_all add: withKey_def)

lemma withKey_tagged_first:
  assumes "i < length rdrs"
    and "\<forall>j < i. filter (\<lambda>f. keygen E join f = key) (entries (rdrs ! j)) = []"
    and "filter (\<lambda>f. keygen E join f = key) (entries (rdrs ! i)) = f # fs"
  shows "\<exists>ps. withKey E join key (tagged i0 rdrs) = (i0 + i, f) # ps"
  using assms
proof (induction rdrs arbitrary: i i0)
  case Nil
  then show ?case by simp
next
  case (Cons rdr rdrs)
  show ?case
  proof (cases i)
    case 0
    then show ?thesis using Cons.prems(3) by (simp add: withKey_append withKey_map_Pair)
  next
    case (Suc i')
    have e: "filter (\<lambda>f. keygen E join f = key) (entries rdr) = []"
      using Cons.prems(2) [rule_format, of 0] Suc by simp
    have a: "i' < length rdrs" using Cons.prems(1) Suc by simp
    have b: "\<forall>j < i'. filter (\<lambda>f. keygen E join f = key) (entries (rdrs ! j)) = []"
      using Cons.prems(2) Suc by auto
    have c: "filter (\<lambda>f. keygen E join f = key) (entries (rdrs ! i')) = f # fs"
      using Cons.prems(3) Suc by simp
    from Cons.IH [OF a b c, of "Suc i0"] show ?thesis
      using Suc by (simp add: withKey_append withKey_map_Pair e)
  qed
qed

lemma remdups_snoc: "remdups (xs @ [k]) = filter (\<lambda>x. x \<noteq> k) (remdups xs) @ [k]"
  by (induction xs) auto

lemma firstSeen_Cons: "firstSeen (k # ks) = k # filter (\<lambda>x. x \<noteq> k) (firstSeen ks)"
  by (simp add: firstSeen_def remdups_snoc rev_filter)

lemma firstSeen_takeWhile:
  "takeWhile (\<lambda>k. k \<noteq> key) (firstSeen ks) = firstSeen (takeWhile (\<lambda>k. k \<noteq> key) ks)"
proof (induction ks)
  case Nil
  show ?case by (simp add: firstSeen_def)
next
  case (Cons k ks)
  have "takeWhile (\<lambda>x. x \<noteq> key) (filter (\<lambda>x. x \<noteq> k) xs)
          = filter (\<lambda>x. x \<noteq> k) (takeWhile (\<lambda>x. x \<noteq> key) xs)" if "k \<noteq> key" for xs :: "'a list"
    using that by (induction xs) auto
  then show ?case using Cons by (simp add: firstSeen_Cons firstSeen_Nil)
qed

text \<open>
  Claim C10, as amended. When result set \<open>i\<close> has two or more entries with the same join
  key, the table \<open>Compare\<close> builds has one row for that key, of \<open>1 + N\<close> columns, and
  \<open>files\<close> lists the key once. Column \<open>i + 1\<close> of the row is the identification strings of
  the last of these entries, sorted and joined with semicolons. Column 0 is the path of the
  first entry read with the key over all result sets in their order: it is of set \<open>i\<close> or
  of an earlier one, namely the first entry with the key of the first set that has the
  key. The place of the key in \<open>files\<close> is that of this first occurrence: the keys before
  it are the distinct keys read before it.
\<close>

theorem repeated_key_row:
  assumes "2 \<le> length paths" and "allOpen E paths" and "readers = readersOf E paths"
    and "st = reconcile E join readers tr"
    and "i < length paths"
    and "fs = filter (\<lambda>f. keygen E join f = key) (entries (readers ! i))"
    and "2 \<le> length fs"
  shows "\<exists>row. results st key = Some row
           \<and> count_list (files st) key = 1
           \<and> length row = 1 + length paths
           \<and> row ! (i + 1) = Join (sort (map String (IDs (last fs)))) '';''
           \<and> (\<exists>p ps. withKey E join key (tagged 0 readers) = p # ps
                  \<and> row ! 0 = Path (snd p) \<and> fst p \<le> i)
           \<and> (\<forall>j < length paths.
                  (\<forall>j' < j. filter (\<lambda>f. keygen E join f = key) (entries (readers ! j')) = [])
                  \<and> filter (\<lambda>f. keygen E join f = key) (entries (readers ! j)) \<noteq> []
                  \<longrightarrow> row ! 0 = Path (hd (filter (\<lambda>f. keygen E join f = key) (entries (readers ! j)))))
           \<and> files st = firstSeen (keysOf E join (tagged 0 readers))
           \<and> takeWhile (\<lambda>k. k \<noteq> key) (files st)
               = firstSeen (takeWhile (\<lambda>k. k \<noteq> key) (keysOf E join (tagged 0 readers)))"
proof -
  let ?xs = "tagged 0 readers"
  let ?row = "rowOf E join (length readers) key ?xs"
  let ?has = "\<lambda>j. filter (\<lambda>f. keygen E join f = key) (entries (readers ! j))"
  have n: "length readers = length paths"
    using assms(3) by (simp add: length_readersOf)
  have i: "i < length readers" using assms(5) n by simp
  have ne: "fs \<noteq> []" using assms(7) by auto
  have "fromSet i (withKey E join key ?xs) = fs"
    using i by (simp add: fromSet_withKey fromSet_tagged assms(6))
  then have "withKey E join key ?xs \<noteq> []"
    using ne by (auto simp: fromSet_def)
  then have k: "key \<in> set (keysOf E join ?xs)"
    by (simp add: withKey_Nil_iff)
  have 1: "results st key = Some ?row"
    using k by (simp add: assms(4) reconcile_results)
  have f: "files st = firstSeen (keysOf E join ?xs)"
    by (simp add: assms(4) reconcile_files)
  have 2: "count_list (files st) key = 1"
    using k distinct_firstSeen [of "keysOf E join ?xs"]
    by (simp add: f distinct_count_atmost_1 set_firstSeen count_mset)
  have l: "length ?row = 1 + length paths"
    using length_rowOf [OF k, of "length readers"] n by simp
  have 3: "?row ! (i + 1) = Join (sort (map String (IDs (last fs)))) '';''"
    using i ne by (simp add: rowOf_column [OF k] column_tagged assms(6) idStr_def)
  have 5: "?row ! 0 = Path (hd (?has j))"
    if a: "j < length paths" "\<forall>j' < j. ?has j' = []" "?has j \<noteq> []" for j
  proof -
    obtain g gs where g: "?has j = g # gs" using a(3) by (cases "?has j") auto
    have "j < length readers" using a(1) n by simp
    from withKey_tagged_first [OF this a(2) g, of 0] obtain qs where
      "withKey E join key ?xs = (0 + j, g) # qs"
      by auto
    from rowOf_path [OF this] show ?thesis by (simp add: g)
  qed
  have 4: "\<exists>p ps. withKey E join key ?xs = p # ps \<and> ?row ! 0 = Path (snd p) \<and> fst p \<le> i"
  proof -
    have "\<exists>j. j < length readers \<and> ?has j \<noteq> []"
      using i ne assms(6) by auto
    then obtain j where j: "j < length readers \<and> ?has j \<noteq> []"
      and least: "\<forall>j' < j. \<not> (j' < length readers \<and> ?has j' \<noteq> [])"
      using exists_least_iff [of "\<lambda>j. j < length readers \<and> ?has j \<noteq> []"] by blast
    have ji: "j \<le> i"
    proof (rule ccontr)
      assume "\<not> j \<le> i"
      then have "i < j" by simp
      with least i ne assms(6) show False by auto
    qed
    have e: "\<forall>j' < j. ?has j' = []"
      using least j by auto
    obtain g gs where g: "?has j = g # gs" using j by (cases "?has j") auto
    from withKey_tagged_first [OF _ e g, of 0] j obtain qs where
      w: "withKey E join key ?xs = (0 + j, g) # qs"
      by auto
    from rowOf_path [OF w] w ji show ?thesis by auto
  qed
  have 6: "takeWhile (\<lambda>k. k \<noteq> key) (files st)
               = firstSeen (takeWhile (\<lambda>k. k \<noteq> key) (keysOf E join ?xs))"
    by (simp add: f firstSeen_takeWhile)
  show ?thesis
    using 1 2 l 3 4 5 6 f by blast
qed

theorem repeated_key_row_witness:
  "2 \<le> length [''b'', ''again''] \<and> allOpen exEnv2 [''b'', ''again'']
   \<and> filter (\<lambda>f. keygen exEnv2 Filename f = ''x'') (entries (readersOf exEnv2 [''b'', ''again''] ! 1))
        = [mkFile ''g/x'' [''fmt/1''], mkFile ''h/x'' [''fmt/3'', ''fmt/1'', ''fmt/2'']]
   \<and> (\<exists>row. results (reconcile exEnv2 Filename (readersOf exEnv2 [''b'', ''again'']) []) ''x'' = Some row
          \<and> length row = 3 \<and> row ! 0 = ''e/x'' \<and> row ! 2 = ''fmt/1;fmt/2;fmt/3''
          \<and> count_list (files (reconcile exEnv2 Filename (readersOf exEnv2 [''b'', ''again'']) [])) ''x'' = 1)
   \<and> results (reconcile exEnv2 Filename (readersOf exEnv2 [''b'', ''again'']) []) ''x''
        = Some [''e/x'', ''fmt/1'', ''fmt/1;fmt/2;fmt/3'']"
proof -
  let ?rs = "readersOf exEnv2 [''b'', ''again'']"
  let ?st = "reconcile exEnv2 Filename ?rs []"
  let ?has = "\<lambda>j. filter (\<lambda>f. keygen exEnv2 Filename f = ''x'') (entries (?rs ! j))"
  have h1: "2 \<le> length [''b'', ''again'']" by simp
  have h2: "allOpen exEnv2 [''b'', ''again'']" by (simp add: exEnv2_def sample_defs)
  have h5: "1 < length [''b'', ''again'']" by simp
  have fs: "?has 1 = [mkFile ''g/x'' [''fmt/1''], mkFile ''h/x'' [''fmt/3'', ''fmt/1'', ''fmt/2'']]"
    by (simp add: key_defs exEnv2_def sample_defs)
  have f0: "?has 0 = [mkFile ''e/x'' [''fmt/1'']]"
    by (simp add: key_defs exEnv2_def sample_defs)
  have h7: "2 \<le> length (?has 1)"
    unfolding fs by simp
  have s: "Join (sort (map String (IDs (last (?has 1))))) '';'' = ''fmt/1;fmt/2;fmt/3''"
    unfolding fs by (simp add: mkFile_def)
  have first: "0 < length [''b'', ''again''] \<and> (\<forall>j' < 0. ?has j' = []) \<and> ?has 0 \<noteq> []"
    unfolding f0 by simp
  from repeated_key_row [OF h1 h2 refl refl h5 refl h7, where tr = "[]"]
  obtain row where row: "results ?st ''x'' = Some row"
    "count_list (files ?st) ''x'' = 1"
    "length row = 1 + length [''b'', ''again'']"
    "row ! (1 + 1) = Join (sort (map String (IDs (last (?has 1))))) '';''"
    "\<forall>j < length [''b'', ''again'']. (\<forall>j' < j. ?has j' = []) \<and> ?has j \<noteq> []
        \<longrightarrow> row ! 0 = Path (hd (?has j))"
    by blast
  have p: "row ! 0 = ''e/x''"
    using row(5) [rule_format, of 0] first unfolding f0 by (simp add: mkFile_def)
  have c: "row ! 2 = ''fmt/1;fmt/2;fmt/3''"
    using row(4) unfolding s by (simp add: numeral_2_eq_2)
  have r: "results ?st ''x'' = Some [''e/x'', ''fmt/1'', ''fmt/1;fmt/2;fmt/3'']"
    by (simp add: reconcile_def start_def consume_Nil consume_Inl consume_Inr addEntry_def
        Let_def lookup_def newRow_def idStr_def key_defs exEnv2_def sample_defs)
  have "\<exists>row. results ?st ''x'' = Some row
          \<and> length row = 3 \<and> row ! 0 = ''e/x'' \<and> row ! 2 = ''fmt/1;fmt/2;fmt/3''
          \<and> count_list (files ?st) ''x'' = 1"
    using row(1,2,3) p c by simp
  then show ?thesis
    using h1 h2 fs r by simp
qed

text \<open>
  The claim as stated fails where an earlier result set has the key: \<open>again\<close> has the key
  \<open>x\<close> twice, first with the path \<open>g/x\<close>; compared after \<open>b\<close>, the path column of the row
  is \<open>e/x\<close>, the path \<open>b\<close> has for the key, and not \<open>g/x\<close>.
\<close>

theorem path_from_earlier_set:
  "map Path (filter (\<lambda>f. keygen exEnv2 Filename f = ''x'')
      (entries (readersOf exEnv2 [''b'', ''again''] ! 1))) = [''g/x'', ''h/x'']
   \<and> Compare exEnv2 Filename [''b'', ''again'']
       = (None, [OpenFile ''b'', OpenFile ''again'', NextEntry 0, NextEntry 0, NextEntry 1,
                 NextEntry 1, NextEntry 1,
                 WriteRecord [''e/x'', ''fmt/1'', ''fmt/1;fmt/2;fmt/3''], Flush])"
  by (simp add: Compare_def reconcile_def start_def consume_Nil consume_Inl consume_Inr
      addEntry_def Let_def lookup_def newRow_def idStr_def matches_def key_defs exEnv2_def
      sample_defs records_def)

section \<open>The text of a column\<close>

lemma sort_strings_example: "sort [''b'', ''ab'', ''a'', ''B'', ''a''] = [''B'', ''a'', ''a'', ''ab'', ''b'']"
  by simp

lemma sort_mset_cong:
  fixes xs ys :: "'a::linorder list"
  shows "mset xs = mset ys \<Longrightarrow> sort xs = sort ys"
  by (rule properties_for_sort) simp_all

lemma feed_column_written:
  assumes "\<forall>p \<in> set xs. fst p < n" and "i < n"
  shows "lookup (results (feed E join n (start tr) (xs @ [(i, f)]))) (keygen E join f) ! (i + 1)
           = idStr f"
proof -
  have b: "\<forall>p \<in> set (xs @ [(i, f)]). fst p < n"
    using assms by simp
  have k: "keygen E join f \<in> set (keysOf E join (xs @ [(i, f)]))"
    by (simp add: keysOf_def)
  show ?thesis
    using assms(2) by (simp add: feed_lookup [OF b] rowOf_column [OF k] column_snoc)
qed

text \<open>
  Claim C1, as amended. The column the loop body writes for an entry \<open>f\<close> of result set \<open>i\<close>
  is the identification strings of \<open>f\<close>, sorted and joined with semicolons, and it is the
  same for every entry \<open>g\<close> with the same identifications in another order. The sorted list
  holds every identification string as often as \<open>f\<close> has it: nothing is removed.
\<close>

theorem column_sorted_joined:
  assumes "\<forall>p \<in> set xs. fst p < n" and "i < n" and "mset (IDs g) = mset (IDs f)"
  shows "lookup (results (feed E join n (start tr) (xs @ [(i, f)]))) (keygen E join f) ! (i + 1)
           = Join (sort (map String (IDs g))) '';''
       \<and> sorted (sort (map String (IDs g)))
       \<and> mset (sort (map String (IDs g))) = mset (map String (IDs f))
       \<and> idStr g = idStr f"
proof -
  have m: "mset (map String (IDs g)) = mset (map String (IDs f))"
    using assms(3) by (metis mset_map)
  then have s: "sort (map String (IDs g)) = sort (map String (IDs f))"
    by (rule sort_mset_cong)
  have "idStr g = idStr f"
    by (simp add: idStr_def s)
  moreover have "lookup (results (feed E join n (start tr) (xs @ [(i, f)]))) (keygen E join f) ! (i + 1)
      = Join (sort (map String (IDs g))) '';''"
    using feed_column_written [OF assms(1,2), of E join tr f] by (simp add: idStr_def s)
  ultimately show ?thesis using m by simp
qed

theorem column_sorted_joined_witness:
  "(0::nat) < 2
   \<and> mset (IDs (mkFile ''e/x'' [''fmt/2'', ''fmt/1'', ''fmt/2'']))
        = mset (IDs (mkFile ''e/x'' [''fmt/2'', ''fmt/2'', ''fmt/1'']))
   \<and> lookup (results (feed exEnv Filename 2 (start [])
        ([(0, mkFile ''d/x'' [''fmt/3'', ''fmt/1''])] @ [(0, mkFile ''e/x'' [''fmt/2'', ''fmt/2'', ''fmt/1''])])))
          (keygen exEnv Filename (mkFile ''e/x'' [''fmt/2'', ''fmt/2'', ''fmt/1''])) ! (0 + 1)
        = ''fmt/1;fmt/2;fmt/2''"
proof -
  have h1: "\<forall>p \<in> set [(0, mkFile ''d/x'' [''fmt/3'', ''fmt/1''])]. fst p < (2::nat)" by simp
  have h2: "(0::nat) < 2" by simp
  have h3: "mset (IDs (mkFile ''e/x'' [''fmt/2'', ''fmt/1'', ''fmt/2'']))
        = mset (IDs (mkFile ''e/x'' [''fmt/2'', ''fmt/2'', ''fmt/1'']))"
    by (simp add: mkFile_def)
  have j: "Join (sort (map String (IDs (mkFile ''e/x'' [''fmt/2'', ''fmt/1'', ''fmt/2'']))))  '';''
             = ''fmt/1;fmt/2;fmt/2''"
    by (simp add: mkFile_def)
  show ?thesis
    using column_sorted_joined [OF h1 h2 h3, of exEnv Filename "[]"] h3
    unfolding j by simp
qed

text \<open>
  The claim as stated fails: an entry with the identification \<open>fmt/1\<close> twice gets the column
  \<open>fmt/1;fmt/1\<close>, where the deduplicated list is \<open>fmt/1\<close>; and \<open>Compare\<close> on the result
  files \<open>twice\<close> and \<open>b\<close> reports the row as a mismatch.
\<close>

theorem column_not_deduplicated:
  "idStr (mkFile ''e/x'' [''fmt/1'', ''fmt/1'']) = ''fmt/1;fmt/1''
   \<and> idStr_spec (mkFile ''e/x'' [''fmt/1'', ''fmt/1'']) = ''fmt/1''
   \<and> Compare exEnv Filename [''twice'', ''b'']
      = (None, [OpenFile ''twice'', OpenFile ''b'', NextEntry 0, NextEntry 0, NextEntry 0,
                NextEntry 1, NextEntry 1, WriteRecord [''d/x'', ''fmt/1;fmt/1'', ''fmt/1''], Flush])"
  by (simp add: Compare_def reconcile_def start_def consume_Nil consume_Inl consume_Inr addEntry_def
        Let_def lookup_def newRow_def idStr_def idStr_spec_def key_defs sample_defs matches_def
        records_def)

section \<open>Rows and keys\<close>

lemma length_filter_distinct:
  assumes "distinct xs"
  shows "length (filter P (map f xs)) = card {x \<in> set xs. P (f x)}"
proof -
  have "length (filter P (map f xs)) = length (filter (P \<circ> f) xs)"
    by (simp add: filter_map)
  also have "\<dots> = card (set (filter (P \<circ> f) xs))"
    using assms distinct_card [of "filter (P \<circ> f) xs"] by simp
  also have "\<dots> = card {x \<in> set xs. P (f x)}"
    by simp
  finally show ?thesis .
qed

text \<open>
  Claim C5, as amended. For every join strategy, the table \<open>Compare\<close> builds has exactly one
  row per distinct join key read from the inputs: no key twice, none left out. What
  \<open>Compare\<close> writes, in a run that returns nil, is the rows of this table that do not
  match, so the number of records written is the number of keys whose row does not match.
\<close>

theorem rows_per_distinct_key:
  assumes "2 \<le> length paths" and "allOpen E paths" and "readers = readersOf E paths"
    and "st = reconcile E join readers (map OpenFile paths)"
    and "keys = set (keysOf E join (tagged 0 readers))"
  shows "dom (results st) = keys \<and> set (files st) = keys \<and> distinct (files st)
       \<and> length (rowsOf st) = card keys
       \<and> (fst (Compare E join paths) = None \<longrightarrow>
             records (snd (Compare E join paths)) = filter (\<lambda>row. \<not> matches row) (rowsOf st)
           \<and> length (records (snd (Compare E join paths)))
               = card {key \<in> keys. \<not> matches (lookup (results st) key)})"
proof -
  have f: "files st = firstSeen (keysOf E join (tagged 0 readers))"
    by (simp add: assms(4) reconcile_files)
  have 1: "dom (results st) = keys"
    by (auto simp: assms(4,5) reconcile_results dom_def)
  have 2: "set (files st) = keys \<and> distinct (files st)"
    by (simp add: f assms(5) set_firstSeen distinct_firstSeen)
  have 3: "length (rowsOf st) = card keys"
    by (simp add: rowsOf_def f assms(5) length_firstSeen)
  have 4: "records (snd (Compare E join paths)) = filter (\<lambda>row. \<not> matches row) (rowsOf st)
           \<and> length (records (snd (Compare E join paths)))
               = card {key \<in> keys. \<not> matches (lookup (results st) key)}"
    if n: "fst (Compare E join paths) = None"
  proof -
    have st: "st = reconcile E join (readersOf E paths) (map OpenFile paths)"
      using assms(3,4) by simp
    have r: "records (snd (Compare E join paths)) = filter (\<lambda>row. \<not> matches row) (rowsOf st)"
      using Compare_records_nil [OF assms(1,2) st n] by (simp add: mismatches_def)
    have "length (filter (\<lambda>row. \<not> matches row) (rowsOf st))
            = card {key \<in> set (files st). \<not> matches (lookup (results st) key)}"
      unfolding rowsOf_def using 2 by (intro length_filter_distinct) simp
    then show ?thesis using r 2 by simp
  qed
  show ?thesis using 1 2 3 4 by blast
qed

lemmas run_defs = Compare_def reconcile_def start_def consume_Nil consume_Inl consume_Inr
  addEntry_def Let_def lookup_def newRow_def idStr_def matches_def

theorem rows_per_distinct_key_witness:
  "2 \<le> length [''a'', ''b''] \<and> allOpen exEnv [''a'', ''b'']
   \<and> fst (Compare exEnv Filename [''a'', ''b'']) = None
   \<and> set (keysOf exEnv Filename (tagged 0 (readersOf exEnv [''a'', ''b'']))) = {''x'', ''y''}
   \<and> length (rowsOf (reconcile exEnv Filename (readersOf exEnv [''a'', ''b'']) (map OpenFile [''a'', ''b''])))
       = card {''x'', ''y''}
   \<and> records (snd (Compare exEnv Filename [''a'', ''b''])) = [[''d/y'', ''fmt/2'', ''MISSING'']]"
proof -
  have h1: "2 \<le> length [''a'', ''b'']" by simp
  have h2: "allOpen exEnv [''a'', ''b'']" by (simp add: sample_defs)
  have c: "Compare exEnv Filename [''a'', ''b'']
      = (None, [OpenFile ''a'', OpenFile ''b'', NextEntry 0, NextEntry 0, NextEntry 0,
                NextEntry 1, NextEntry 1, WriteRecord [''d/y'', ''fmt/2'', ''MISSING''], Flush])"
    by (simp add: run_defs key_defs sample_defs records_def)
  have n: "fst (Compare exEnv Filename [''a'', ''b'']) = None"
    by (simp add: c)
  have k: "set (keysOf exEnv Filename (tagged 0 (readersOf exEnv [''a'', ''b'']))) = {''x'', ''y''}"
    by (auto simp: keysOf_def key_defs sample_defs)
  have r: "records (snd (Compare exEnv Filename [''a'', ''b''])) = [[''d/y'', ''fmt/2'', ''MISSING'']]"
    by (simp add: c records_def)
  show ?thesis
    using rows_per_distinct_key [OF h1 h2 refl refl refl, of Filename] h1 h2 n r
    unfolding k by simp
qed

text \<open>
  The claim as stated fails: on the result file \<open>b\<close> compared with itself there is one key,
  and no record is written.
\<close>

theorem output_rows_fewer_than_keys:
  "Compare exEnv Path_join [''b'', ''b'']
     = (None, [OpenFile ''b'', OpenFile ''b'', NextEntry 0, NextEntry 0, NextEntry 1, NextEntry 1,
               Flush, Print ''COMPLETE MATCH''])
   \<and> length (records (snd (Compare exEnv Path_join [''b'', ''b'']))) = 0
   \<and> card (set (keysOf exEnv Path_join (tagged 0 (readersOf exEnv [''b'', ''b''])))) = 1"
  by (simp add: run_defs key_defs sample_defs records_def keysOf_def)

section \<open>Matching rows\<close>

lemma all_eq_iff: "all_eq m rs \<longleftrightarrow> (\<forall>r \<in> set rs. r = m)"
  by (induction rs) auto

lemma matches_iff:
  "matches row \<longleftrightarrow> 3 \<le> length row \<and> (\<forall>c \<in> set (drop 2 row). c = row ! 1)"
  by (auto simp: matches_def all_eq_iff)

lemma matches_tl:
  assumes "matches row" and "c \<in> set (tl row)"
  shows "c = row ! 1"
proof -
  from assms(1) have l: "3 \<le> length row" and d: "\<forall>c \<in> set (drop 2 row). c = row ! 1"
    by (simp_all add: matches_iff)
  obtain a r1 where r1: "row = a # r1" using l by (cases row) auto
  obtain b r2 where r2: "r1 = b # r2" using l r1 by (cases r1) auto
  have "tl row = b # r2" "drop 2 row = r2" "row ! 1 = b"
    by (simp_all add: r1 r2)
  then show ?thesis using d assms(2) by auto
qed

lemma matches_agree:
  assumes "matches row"
  shows "agreeNonMissing row"
proof -
  have "a = b" if "a \<in> set (tl row)" and "b \<in> set (tl row)" for a b
    using matches_tl [OF assms that(1)] matches_tl [OF assms that(2)] by simp
  then show ?thesis by (simp add: agreeNonMissing_def)
qed

lemma missing_mismatch:
  assumes "''MISSING'' \<in> set (tl row)" and "\<exists>c \<in> set (tl row). c \<noteq> ''MISSING''"
  shows "\<not> matches row"
proof
  assume m: "matches row"
  from assms(2) obtain c where c: "c \<in> set (tl row)" "c \<noteq> ''MISSING''" by blast
  have "''MISSING'' = row ! 1" by (rule matches_tl [OF m assms(1)])
  moreover have "c = row ! 1" by (rule matches_tl [OF m c(1)])
  ultimately show False using c(2) by simp
qed

text \<open>
  Claim C4, as amended. In a run that returns nil, a row of the table is left out of the
  output iff it matches, and the output is the rows that do not match, in order. A row
  matches iff it has at least 3 columns and every column after the first identification
  column equals that column, \<open>"MISSING"\<close> compared as any other text. So a row that matches
  has the same text in all its columns that are not \<open>"MISSING"\<close>; but a row with a
  \<open>"MISSING"\<close> column beside another text does not match, and is written.
\<close>

theorem excluded_iff_matches:
  assumes "2 \<le> length paths" and "allOpen E paths"
    and "st = reconcile E join (readersOf E paths) (map OpenFile paths)"
    and "fst (Compare E join paths) = None"
    and "row \<in> set (rowsOf st)"
  shows "(row \<notin> set (records (snd (Compare E join paths))) \<longleftrightarrow> matches row)
       \<and> (matches row \<longleftrightarrow> 3 \<le> length row \<and> (\<forall>c \<in> set (drop 2 row). c = row ! 1))
       \<and> (matches row \<longrightarrow> agreeNonMissing row)
       \<and> (''MISSING'' \<in> set (tl row) \<and> (\<exists>c \<in> set (tl row). c \<noteq> ''MISSING'') \<longrightarrow> \<not> matches row)
       \<and> records (snd (Compare E join paths)) = filter (\<lambda>row. \<not> matches row) (rowsOf st)"
proof -
  have r: "records (snd (Compare E join paths)) = filter (\<lambda>row. \<not> matches row) (rowsOf st)"
    using Compare_records_nil [OF assms(1,2,3,4)] by (simp add: mismatches_def)
  have 1: "row \<notin> set (records (snd (Compare E join paths))) \<longleftrightarrow> matches row"
    using assms(5) by (simp add: r)
  show ?thesis
    using 1 r matches_iff [of row] matches_agree [of row] missing_mismatch [of row] by blast
qed

theorem excluded_iff_matches_witness:
  "2 \<le> length [''a'', ''b''] \<and> allOpen exEnv [''a'', ''b'']
   \<and> fst (Compare exEnv Filename [''a'', ''b'']) = None
   \<and> [''d/x'', ''fmt/1'', ''fmt/1'']
        \<in> set (rowsOf (reconcile exEnv Filename (readersOf exEnv [''a'', ''b'']) (map OpenFile [''a'', ''b''])))
   \<and> [''d/x'', ''fmt/1'', ''fmt/1''] \<notin> set (records (snd (Compare exEnv Filename [''a'', ''b''])))
   \<and> matches [''d/x'', ''fmt/1'', ''fmt/1'']"
proof -
  have h1: "2 \<le> length [''a'', ''b'']" by simp
  have h2: "allOpen exEnv [''a'', ''b'']" by (simp add: sample_defs)
  have h4: "fst (Compare exEnv Filename [''a'', ''b'']) = None"
    by (simp add: run_defs key_defs sample_defs records_def)
  have h5: "[''d/x'', ''fmt/1'', ''fmt/1'']
        \<in> set (rowsOf (reconcile exEnv Filename (readersOf exEnv [''a'', ''b'']) (map OpenFile [''a'', ''b''])))"
    by (simp add: rowsOf_def run_defs key_defs sample_defs)
  have m: "matches [''d/x'', ''fmt/1'', ''fmt/1'']"
    by (simp add: matches_def)
  show ?thesis
    using excluded_iff_matches [OF h1 h2 refl h4 h5] h1 h2 h4 h5 m by blast
qed

text \<open>
  The claim as stated fails: the row of an entry that only the first result set has agrees
  on all its columns that are not \<open>"MISSING"\<close>, and it is written.
\<close>

theorem missing_row_is_written:
  "agreeNonMissing [''e/x'', ''fmt/1'', ''MISSING'']
   \<and> Compare exEnv Path_join [''b'', ''empty'']
       = (None, [OpenFile ''b'', OpenFile ''empty'', NextEntry 0, NextEntry 0, NextEntry 1,
                 WriteRecord [''e/x'', ''fmt/1'', ''MISSING''], Flush])"
  by (simp add: agreeNonMissing_def run_defs key_defs sample_defs records_def)

section \<open>The marker of a complete match\<close>

lemma Print_not_in_reconcile:
  "Print s \<notin> set (trace (reconcile E join readers (map OpenFile vs)))"
  using not_open_nexts [of "Print s" 0 readers] by (auto simp: reconcile_trace)

lemma mismatches_Nil_iff: "mismatches st = [] \<longleftrightarrow> (\<forall>row \<in> set (rowsOf st). matches row)"
  by (simp add: mismatches_def filter_empty_conv)

text \<open>
  Claim C3, as amended. \<open>Compare\<close> prints \<open>COMPLETE MATCH\<close> exactly when it was given two or
  more paths, all of them opened, and no row of the table mismatches; then it returns nil
  and has written no record. The table may have no row at all: then, too, the marker is
  printed.
\<close>

theorem complete_match_marker:
  assumes "st = reconcile E join (readersOf E paths) (map OpenFile paths)"
  shows "(Print ''COMPLETE MATCH'' \<in> set (snd (Compare E join paths))
            \<longleftrightarrow> 2 \<le> length paths \<and> allOpen E paths \<and> (\<forall>row \<in> set (rowsOf st). matches row))
       \<and> (Print ''COMPLETE MATCH'' \<in> set (snd (Compare E join paths))
            \<longrightarrow> fst (Compare E join paths) = None \<and> records (snd (Compare E join paths)) = [])
       \<and> (2 \<le> length paths \<and> allOpen E paths \<and> rowsOf st = []
            \<longrightarrow> Print ''COMPLETE MATCH'' \<in> set (snd (Compare E join paths)))"
proof -
  let ?M = "Print ''COMPLETE MATCH''"
  have A: "?M \<notin> set (snd (Compare E join paths))" if "length paths < 2"
    using that by (simp add: Compare_few)
  have B: "?M \<notin> set (snd (Compare E join paths))" if "2 \<le> length paths" "\<not> allOpen E paths"
    using Compare_not_allOpen [OF that, of join] by auto
  have C: "(?M \<in> set (snd (Compare E join paths)) \<longleftrightarrow> mismatches st = [])
           \<and> (mismatches st = [] \<longrightarrow>
                 fst (Compare E join paths) = None \<and> records (snd (Compare E join paths)) = [])"
    if c: "2 \<le> length paths" "allOpen E paths"
    using Compare_cases [OF c assms]
  proof
    assume ok: "Compare E join paths =
           (None, trace st @ map WriteRecord (mismatches st) @ [Flush]
                    @ (if mismatches st = [] then [Print ''COMPLETE MATCH''] else []))"
    have "?M \<notin> set (trace st)"
      using assms Print_not_in_reconcile by simp
    then have "?M \<in> set (snd (Compare E join paths)) \<longleftrightarrow> mismatches st = []"
      by (auto simp: ok)
    moreover have "records (snd (Compare E join paths)) = []" if "mismatches st = []"
      using that by (simp add: ok records_append records_trace_reconcile [OF assms]
          records_Cons records_Nil)
    ultimately show ?thesis by (simp add: ok)
  next
    assume "\<exists>m err. m < length (mismatches st)
               \<and> Write E (take m (mismatches st)) (mismatches st ! m) = Some err
               \<and> Compare E join paths = (Some err, trace st @ map WriteRecord (take m (mismatches st)))"
    then obtain m err where m: "m < length (mismatches st)"
      and f: "Compare E join paths = (Some err, trace st @ map WriteRecord (take m (mismatches st)))"
      by blast
    have "?M \<notin> set (trace st)"
      using assms Print_not_in_reconcile by simp
    then have "?M \<notin> set (snd (Compare E join paths))"
      by (auto simp: f)
    moreover have "mismatches st \<noteq> []" using m by auto
    ultimately show ?thesis by simp
  qed
  have 1: "?M \<in> set (snd (Compare E join paths))
            \<longleftrightarrow> 2 \<le> length paths \<and> allOpen E paths \<and> (\<forall>row \<in> set (rowsOf st). matches row)"
    using A B C by (cases "length paths < 2"; cases "allOpen E paths")
      (auto simp: mismatches_Nil_iff)
  have 2: "fst (Compare E join paths) = None \<and> records (snd (Compare E join paths)) = []"
    if "?M \<in> set (snd (Compare E join paths))"
    using that A B C by (cases "length paths < 2"; cases "allOpen E paths") auto
  have 3: "?M \<in> set (snd (Compare E join paths))"
    if "2 \<le> length paths \<and> allOpen E paths \<and> rowsOf st = []"
    using that 1 by simp
  show ?thesis using 1 2 3 by blast
qed

theorem complete_match_marker_witness:
  "Print ''COMPLETE MATCH'' \<in> set (snd (Compare exEnv Path_join [''b'', ''b'']))
   \<and> 2 \<le> length [''b'', ''b''] \<and> allOpen exEnv [''b'', ''b'']
   \<and> rowsOf (reconcile exEnv Path_join (readersOf exEnv [''b'', ''b'']) (map OpenFile [''b'', ''b'']))
        = [[''e/x'', ''fmt/1'', ''fmt/1'']]
   \<and> matches [''e/x'', ''fmt/1'', ''fmt/1'']
   \<and> fst (Compare exEnv Path_join [''b'', ''b'']) = None
   \<and> records (snd (Compare exEnv Path_join [''b'', ''b''])) = []"
proof -
  have h1: "2 \<le> length [''b'', ''b'']" by simp
  have h2: "allOpen exEnv [''b'', ''b'']" by (simp add: sample_defs)
  have r: "rowsOf (reconcile exEnv Path_join (readersOf exEnv [''b'', ''b'']) (map OpenFile [''b'', ''b'']))
        = [[''e/x'', ''fmt/1'', ''fmt/1'']]"
    by (simp add: rowsOf_def run_defs key_defs sample_defs)
  have m: "matches [''e/x'', ''fmt/1'', ''fmt/1'']"
    by (simp add: matches_def)
  have a: "\<forall>row \<in> set (rowsOf (reconcile exEnv Path_join (readersOf exEnv [''b'', ''b''])
                  (map OpenFile [''b'', ''b'']))). matches row"
    unfolding r using m by simp
  have p: "Print ''COMPLETE MATCH'' \<in> set (snd (Compare exEnv Path_join [''b'', ''b'']))"
    using complete_match_marker [OF refl, of exEnv Path_join "[''b'', ''b'']", THEN conjunct1]
      h1 h2 a by blast
  show ?thesis
    using complete_match_marker [OF refl, of exEnv Path_join "[''b'', ''b'']",
        THEN conjunct2, THEN conjunct1, rule_format, OF p] p h1 h2 r m
    by simp
qed

text \<open>
  The claim as stated fails: with two result files that have no entry, no row exists and
  the marker is printed.
\<close>

theorem marker_without_rows:
  "rowsOf (reconcile exEnv Path_join (readersOf exEnv [''empty'', ''empty''])
       (map OpenFile [''empty'', ''empty''])) = []
   \<and> Compare exEnv Path_join [''empty'', ''empty'']
       = (None, [OpenFile ''empty'', OpenFile ''empty'', NextEntry 0, NextEntry 1,
                 Flush, Print ''COMPLETE MATCH''])"
  by (simp add: rowsOf_def run_defs key_defs sample_defs records_def)

section \<open>Errors while reading and writing\<close>

lemma entries_cut: "entries (cutReader rdr) = entries rdr"
proof (induction rdr)
  case Nil
  show ?case by (simp add: cutReader_def)
next
  case (Cons x rdr)
  then show ?case by (cases x) (simp_all add: cutReader_def)
qed

lemma keygen_cutErrors: "keygen (cutErrors E) join f = keygen E join f"
  by (simp add: keygen_def cutErrors_def)

lemma addEntry_cutErrors: "addEntry (cutErrors E) join n i f st = addEntry E join n i f st"
  by (simp add: addEntry_def keygen_cutErrors)

lemma feed_cutErrors: "feed (cutErrors E) join n st xs = feed E join n st xs"
  by (simp add: feed_def addEntry_cutErrors)

lemma tagged_cut: "tagged i (map cutReader rdrs) = tagged i rdrs"
  by (induction rdrs arbitrary: i) (simp_all add: entries_cut)

lemma nexts_cut: "nexts i (map cutReader rdrs) = nexts i rdrs"
  by (induction rdrs arbitrary: i) (simp_all add: entries_cut)

lemma reconcile_cutErrors:
  "reconcile (cutErrors E) join (map cutReader rdrs) tr = reconcile E join rdrs tr"
  by (simp add: reconcile_feed feed_cutErrors tagged_cut nexts_cut)

lemma writeAll_cutErrors: "writeAll (cutErrors E) res fs c tr = writeAll E res fs c tr"
  by (induction fs arbitrary: c tr) (simp_all add: cutErrors_def split: option.splits)

lemma openAll_cutErrors:
  "openAll (cutErrors E) vs (map cutReader rs) tr =
     (case openAll E vs rs tr of
        (Inl err, tr') \<Rightarrow> (Inl err, tr')
      | (Inr rdrs, tr') \<Rightarrow> (Inr (map cutReader rdrs), tr'))"
proof (induction vs arbitrary: rs tr)
  case Nil
  show ?case by simp
next
  case (Cons v vs)
  show ?case
  proof (cases "Open E v")
    case (Inl err)
    then show ?thesis by (simp add: cutErrors_def)
  next
    case (Inr rdr)
    then have o: "Open (cutErrors E) v = Inr (cutReader rdr)" by (simp add: cutErrors_def)
    show ?thesis
      using Cons.IH [of "rs @ [rdr]" "tr @ [OpenFile v]"] Inr o by simp
  qed
qed

lemma Compare_cutErrors: "Compare (cutErrors E) join paths = Compare E join paths"
proof (cases "openAll E paths [] []")
  case (Pair r tr)
  show ?thesis
  proof (cases r)
    case (Inl err)
    then show ?thesis
      using Pair openAll_cutErrors [of E paths "[]" "[]"] by (simp add: Compare_def)
  next
    case (Inr rdrs)
    then show ?thesis
      using Pair openAll_cutErrors [of E paths "[]" "[]"]
      by (simp add: Compare_def reconcile_cutErrors writeAll_cutErrors)
  qed
qed

lemma last_tried_in_paths: "tried E vs \<noteq> [] \<Longrightarrow> last (tried E vs) \<in> set vs"
proof -
  assume a: "tried E vs \<noteq> []"
  obtain rest where "vs = tried E vs @ rest" using tried_prefix by blast
  then have "set (tried E vs) \<subseteq> set vs" by (metis set_append sup_ge1)
  then show ?thesis using a last_in_set by blast
qed

lemma Compare_error_source:
  assumes "fst (Compare E join paths) = Some err"
  shows "err = TooFew (length paths) \<or> (\<exists>v \<in> set paths. Open E v = Inl err)
           \<or> (\<exists>written row. Write E written row = Some err)"
proof (cases "length paths < 2")
  case True
  then show ?thesis using assms by (simp add: Compare_few)
next
  case False
  then have l: "2 \<le> length paths" by simp
  show ?thesis
  proof (cases "allOpen E paths")
    case False
    from Compare_not_allOpen [OF l this, of join] obtain e where
      "Compare E join paths = (Some e, map OpenFile (tried E paths))" "tried E paths \<noteq> []"
      "Open E (last (tried E paths)) = Inl e"
      by blast
    then show ?thesis using assms last_tried_in_paths [of E paths] by auto
  next
    case True
    from Compare_cases [OF l True refl, of join] assms show ?thesis by auto
  qed
qed

text \<open>
  Claim C2, as amended. An error of \<open>Next\<close>, whatever it is, only ends the reading of that
  result set: \<open>Compare\<close> does on the readers as they are exactly what it does on the readers
  cut at their first error, so a reader whose entry cannot be parsed is to \<open>Compare\<close> a
  reader that ends there. The errors \<open>Compare\<close> returns are the one for fewer than two
  paths, that of a path that does not open, and that of a write. When a write fails, the
  earlier ones having succeeded, \<open>Compare\<close> returns the error of that write, and nothing
  happens after it: no further record, no flush, no marker.
\<close>

theorem only_write_errors_abort:
  assumes "st = reconcile E join (readersOf E paths) (map OpenFile paths)"
  shows "Compare E join paths = Compare (cutErrors E) join paths
       \<and> (fst (Compare E join paths) = Some err \<longrightarrow>
             err = TooFew (length paths) \<or> (\<exists>v \<in> set paths. Open E v = Inl err)
               \<or> (\<exists>written row. Write E written row = Some err))
       \<and> (2 \<le> length paths \<and> allOpen E paths \<and> m < length (mismatches st)
            \<and> (\<forall>j < m. Write E (take j (mismatches st)) (mismatches st ! j) = None)
            \<and> Write E (take m (mismatches st)) (mismatches st ! m) = Some werr
            \<longrightarrow> Compare E join paths = (Some werr, trace st @ map WriteRecord (take m (mismatches st))))"
proof (intro conjI impI)
  show "Compare E join paths = Compare (cutErrors E) join paths"
    by (simp add: Compare_cutErrors)
next
  assume "fst (Compare E join paths) = Some err"
  then show "err = TooFew (length paths) \<or> (\<exists>v \<in> set paths. Open E v = Inl err)
               \<or> (\<exists>written row. Write E written row = Some err)"
    by (rule Compare_error_source)
next
  assume a: "2 \<le> length paths \<and> allOpen E paths \<and> m < length (mismatches st)
            \<and> (\<forall>j < m. Write E (take j (mismatches st)) (mismatches st ! j) = None)
            \<and> Write E (take m (mismatches st)) (mismatches st ! m) = Some werr"
  then show "Compare E join paths = (Some werr, trace st @ map WriteRecord (take m (mismatches st)))"
    using Compare_write_fails [OF _ _ assms, of m werr] by blast
qed


theorem only_write_errors_abort_witness:
  "2 \<le> length [''broken'', ''b''] \<and> allOpen (fullAfter 1 exEnv) [''broken'', ''b'']
   \<and> mismatches (reconcile (fullAfter 1 exEnv) Path_join
          (readersOf (fullAfter 1 exEnv) [''broken'', ''b'']) (map OpenFile [''broken'', ''b'']))
        = [[''d/x'', ''fmt/1'', ''MISSING''], [''e/x'', ''MISSING'', ''fmt/1'']]
   \<and> Write (fullAfter 1 exEnv) [] [''d/x'', ''fmt/1'', ''MISSING''] = None
   \<and> Write (fullAfter 1 exEnv) [[''d/x'', ''fmt/1'', ''MISSING'']] [''e/x'', ''MISSING'', ''fmt/1'']
        = Some (Failure ''write failed'')
   \<and> Compare (fullAfter 1 exEnv) Path_join [''broken'', ''b'']
        = (Some (Failure ''write failed''),
           [OpenFile ''broken'', OpenFile ''b'', NextEntry 0, NextEntry 0, NextEntry 1, NextEntry 1,
            WriteRecord [''d/x'', ''fmt/1'', ''MISSING'']])"
proof -
  let ?E = "fullAfter 1 exEnv"
  let ?st = "reconcile ?E Path_join (readersOf ?E [''broken'', ''b'']) (map OpenFile [''broken'', ''b''])"
  have h1: "2 \<le> length [''broken'', ''b'']" by simp
  have h2: "allOpen ?E [''broken'', ''b'']" by (simp add: fullAfter_def sample_defs)
  have m: "mismatches ?st = [[''d/x'', ''fmt/1'', ''MISSING''], [''e/x'', ''MISSING'', ''fmt/1'']]"
    by (simp add: mismatches_def rowsOf_def run_defs key_defs fullAfter_def sample_defs)
  have t: "trace ?st = [OpenFile ''broken'', OpenFile ''b'', NextEntry 0, NextEntry 0, NextEntry 1, NextEntry 1]"
    by (simp add: run_defs key_defs fullAfter_def sample_defs)
  have w0: "Write ?E [] [''d/x'', ''fmt/1'', ''MISSING''] = None"
    by (simp add: fullAfter_def)
  have w1: "Write ?E [[''d/x'', ''fmt/1'', ''MISSING'']] [''e/x'', ''MISSING'', ''fmt/1'']
        = Some (Failure ''write failed'')"
    by (simp add: fullAfter_def)
  have h: "2 \<le> length [''broken'', ''b''] \<and> allOpen ?E [''broken'', ''b''] \<and> 1 < length (mismatches ?st)
            \<and> (\<forall>j < 1. Write ?E (take j (mismatches ?st)) (mismatches ?st ! j) = None)
            \<and> Write ?E (take 1 (mismatches ?st)) (mismatches ?st ! 1) = Some (Failure ''write failed'')"
    unfolding m using h2 w0 w1 by simp
  show ?thesis
    using only_write_errors_abort [OF refl, of ?E Path_join "[''broken'', ''b'']",
        THEN conjunct2, THEN conjunct2, rule_format, OF h] h1 h2 w0 w1
    unfolding m t by simp
qed

text \<open>
  The claim as stated fails: the second call of \<open>Next\<close> on the result file \<open>broken\<close> returns
  a parse error; \<open>Compare\<close> goes on with the next result file, writes its report and
  returns nil.
\<close>

theorem parse_error_is_dropped:
  "Open exEnv ''broken''
     = Inr [Inr (mkFile ''d/x'' [''fmt/1'']), Inl (Failure ''parse error''),
            Inr (mkFile ''d/y'' [''fmt/2''])]
   \<and> fst (Next [Inl (Failure ''parse error''), Inr (mkFile ''d/y'' [''fmt/2''])])
       = Inl (Failure ''parse error'')
   \<and> Compare exEnv Path_join [''broken'', ''b'']
       = (None, [OpenFile ''broken'', OpenFile ''b'', NextEntry 0, NextEntry 0, NextEntry 1,
                 NextEntry 1, WriteRecord [''d/x'', ''fmt/1'', ''MISSING''],
                 WriteRecord [''e/x'', ''MISSING'', ''fmt/1''], Flush])"
  by (simp add: Next_def run_defs key_defs sample_defs records_def)

section \<open>Loading an identifier\<close>

lemma length_loaders: "length (loaders :: 'a IdentifierLoader option list) = 8"
  by (simp add: loaders_def)

lemma RegisterIdentifier_length:
  "RegisterIdentifier tag l tbl = Inr tbl' \<Longrightarrow> length tbl' = length tbl"
  by (auto simp: RegisterIdentifier_def split: if_splits)

lemma RegisterIdentifier_panics:
  "8 \<le> unat tag \<Longrightarrow> RegisterIdentifier tag l tbl = Inl (IndexOutOfRange (unat tag) 8)"
  by (simp add: RegisterIdentifier_def)

lemma LoadByte_healthy:
  "Err ls = None \<Longrightarrow> pos ls < length (buf ls) \<Longrightarrow>
     LoadByte ls = (buf ls ! pos ls, ls\<lparr>pos := pos ls + 1\<rparr>)"
  by (simp add: LoadByte_def)

lemma LoadByte_sticky: "Err ls = Some e \<Longrightarrow> LoadByte ls = (0, ls)"
  by (simp add: LoadByte_def)

lemma LoadByte_Err_kept: "Err ls = Some e \<Longrightarrow> Err (snd (LoadByte ls)) = Some e"
  by (simp add: LoadByte_def)

text \<open>
  A tag among the 8 slots whose slot is empty: \<open>LoadIdentifier\<close> returns nil and leaves an
  error on the cursor, \<open>bad identifier loader\<close> when the cursor had none after the tag was
  read, the earlier error otherwise.
\<close>

lemma LoadIdentifier_empty_slot:
  assumes "LoadByte ls = (tag, ls1)" and "unat tag < 8" and "tbl ! unat tag = None"
  shows "\<exists>ls2. LoadIdentifier tbl ls = Inr (None, ls2)
           \<and> buf ls2 = buf ls1 \<and> pos ls2 = pos ls1
           \<and> Err ls2 = (case Err ls1 of None \<Rightarrow> Some (Failure ''bad identifier loader'')
                                        | Some e \<Rightarrow> Some e)"
  using assms by (auto simp: LoadIdentifier_def split: option.splits)

lemma LoadIdentifier_empty_slot_healthy:
  assumes "Err ls = None" and "pos ls < length (buf ls)" and "unat (buf ls ! pos ls) < 8"
    and "tbl ! unat (buf ls ! pos ls) = None"
  shows "LoadIdentifier tbl ls =
           Inr (None, ls\<lparr>pos := pos ls + 1, Err := Some (Failure ''bad identifier loader'')\<rparr>)"
  using assms by (simp add: LoadIdentifier_def LoadByte_def)

lemma LoadIdentifier_empty_slot_sticky:
  assumes "Err ls = Some e" and "tbl ! 0 = None"
  shows "LoadIdentifier tbl ls = Inr (None, ls)"
  using assms by (simp add: LoadIdentifier_def LoadByte_def)

text \<open>A tag of 8 or more, read from a healthy cursor: the index expression panics.\<close>

lemma LoadIdentifier_panics:
  assumes "Err ls = None" and "pos ls < length (buf ls)" and "8 \<le> unat (buf ls ! pos ls)"
  shows "LoadIdentifier tbl ls = Inl (IndexOutOfRange (unat (buf ls ! pos ls)) 8)"
  using assms by (simp add: LoadIdentifier_def LoadByte_def)

lemma LoadIdentifier_registered:
  assumes "Err ls = None" and "pos ls < length (buf ls)" and "unat (buf ls ! pos ls) < 8"
    and "tbl ! unat (buf ls ! pos ls) = Some l"
  shows "LoadIdentifier tbl ls = Inr (l (ls\<lparr>pos := pos ls + 1\<rparr>))"
  using assms by (simp add: LoadIdentifier_def LoadByte_def)

text \<open>
  Claim C7. It holds for a tag among the 8 slots (\<open>LoadIdentifier_empty_slot\<close>), and the code
  breaks it for the other tags without a loader: on a healthy cursor whose next byte is 8,
  with no loader registered at all, \<open>LoadIdentifier\<close> does not return nil with the error
  \<open>bad identifier loader\<close> on the cursor; the index expression \<open>loaders[int(id)]\<close> panics.
\<close>

theorem LoadIdentifier_tag_8:
  "LoadIdentifier loaders \<lparr>buf = [8], pos = 0, Err = None\<rparr> = Inl (IndexOutOfRange 8 8)"
  by (simp add: LoadIdentifier_def LoadByte_def)

text \<open>
  Claim C9. The code breaks it: the table has 8 slots and the tag is any byte. On a healthy
  cursor whose next byte is 255 the lookup is out of bounds, whatever the table holds, and
  the call panics (\<open>LoadIdentifier_panics\<close> has the same for every tag from 8 on).
\<close>

theorem LoadIdentifier_tag_255:
  "LoadIdentifier tbl \<lparr>buf = [255], pos = 0, Err = None\<rparr> = Inl (IndexOutOfRange 255 8)"
  by (simp add: LoadIdentifier_def LoadByte_def)

text \<open>The last slot, for comparison: tag 7 with no loader registered.\<close>

lemma LoadIdentifier_tag_7:
  "LoadIdentifier loaders \<lparr>buf = [7], pos = 0, Err = None\<rparr>
     = Inr (None, \<lparr>buf = [7], pos = 1, Err = Some (Failure ''bad identifier loader'')\<rparr>)"
  by (simp add: LoadIdentifier_def LoadByte_def loaders_def)

end
